theory Spec2Isabelle
  imports Main "HOL-Library.AList"
begin

section \<open>JavaScript values and objects\<close>

text \<open>
  The validator builds JSON Schema documents as plain JavaScript objects. A value is
  modelled by the constructors below; an object is the list of its own enumerable
  properties in insertion order, each key occurring once. Numbers are integers here
  (no claim depends on fractions), a function supplied by the user is an opaque token
  without enumerable properties, and \<open>JBuiltin\<close> is a built-in object of the
  JavaScript runtime, named, which has no own enumerable property either.
\<close>

datatype jsval =
    JUndefined
  | JNull
  | JBool bool
  | JNum int
  | JStr string
  | JArr "jsval list"
  | JObj "(string \<times> jsval) list"
  | JFun nat
  | JBuiltin string

type_synonym props = "(string \<times> jsval) list"

text \<open>Decimal rendering of an array index, the property key of an array element.\<close>

function index_key :: "nat \<Rightarrow> string" where
  "index_key n =
     (if n < 10 then [char_of (48 + n)]
      else index_key (n div 10) @ [char_of (48 + n mod 10)])"
  by pat_completeness auto
termination
  by (relation "measure id") auto

text \<open>
  The own enumerable properties that an object spread \<open>{ ...v }\<close> copies: the entries
  of an object, the indexed elements of an array, the indexed characters of a string,
  and nothing for \<open>undefined\<close>, \<open>null\<close>, booleans, numbers and functions.
\<close>

fun ownProps :: "jsval \<Rightarrow> props" where
  "ownProps (JObj kvs) = kvs"
| "ownProps (JArr xs) = zip (map index_key [0..<length xs]) xs"
| "ownProps (JStr s) = zip (map index_key [0..<length s]) (map (\<lambda>c. JStr [c]) s)"
| "ownProps v = []"

text \<open>
  What a document holds under a key: the own enumerable property \<open>k\<close> of \<open>v\<close>,
  \<open>undefined\<close> when there is none. This is how a fragment is inspected below; it is
  not the property read of the code.
\<close>

definition getProp :: "jsval \<Rightarrow> string \<Rightarrow> jsval" where
  "getProp v k = (case map_of (ownProps v) k of None \<Rightarrow> JUndefined | Some x \<Rightarrow> x)"

text \<open>
  The property read \<open>v[k]\<close> / \<open>v.k\<close> of the code. An own enumerable property is
  found first. Otherwise the read goes on to the non-enumerable own properties and up
  the prototype chain: \<open>{}[''constructor'']\<close> is the function \<open>Object\<close>,
  \<open>[1, 2].length\<close> is \<open>2\<close>. What is found there belongs to the JavaScript runtime
  and not to the repository; it enters the model as the table \<open>rt\<close>, which every
  function below takes as its first parameter. No assumption is made on the table: the
  theorems hold for every runtime. A read from \<open>undefined\<close> or \<open>null\<close> throws; the
  one place where the code can make such a read is modelled where it occurs.
\<close>

type_synonym runtime = "jsval \<Rightarrow> string \<Rightarrow> jsval"

definition jsGet :: "runtime \<Rightarrow> jsval \<Rightarrow> string \<Rightarrow> jsval" where
  "jsGet rt v k = (case map_of (ownProps v) k of None \<Rightarrow> rt v k | Some x \<Rightarrow> x)"

text \<open>
  \<open>assign a b\<close> writes the properties \<open>b\<close> onto \<open>a\<close> from left to right, as the
  object literal \<open>{ ...a, ...b }\<close> does: an existing key keeps its place and takes the
  new value, a new key is appended. A spread enumerates every key of its source once,
  so repeated keys of the representation are dropped first.
\<close>

definition assign :: "props \<Rightarrow> props \<Rightarrow> props" where
  "assign a b = fold (\<lambda>(k, v). AList.update k v) (AList.clearjunk b) a"

text \<open>JavaScript truthiness, and \<open>x || null\<close> with \<open>None\<close> standing for \<open>null\<close>.\<close>

fun truthy :: "jsval \<Rightarrow> bool" where
  "truthy JUndefined = False"
| "truthy JNull = False"
| "truthy (JBool b) = b"
| "truthy (JNum n) = (n \<noteq> 0)"
| "truthy (JStr s) = (s \<noteq> [])"
| "truthy v = True"

definition orNull :: "jsval \<Rightarrow> jsval option" where
  "orNull v = (if truthy v then Some v else None)"

section \<open>The type graph\<close>

text \<open>
  The GraphQL schema as the validator reads it. A named type carries its name and its
  kind; a position's type wraps a named type in list and non-null wrappers. A field has
  a type and, on object and interface types, an argument list (\<open>None\<close> is the
  \<open>undefined\<close> of an input field). \<open>getFields\<close> exists on object, interface and
  input-object types only. The type map and the field map are given in the order
  \<open>Object.entries\<close> enumerates them.
\<close>

datatype type_kind =
  ScalarKind | EnumKind | UnionKind | ObjectKind | InterfaceKind | InputObjectKind

record named_type =
  nt_name :: string
  nt_kind :: type_kind

datatype gql_type = NamedT named_type | ListT gql_type | NonNullT gql_type

record argument =
  arg_name :: string
  arg_type :: gql_type

record field =
  field_type :: gql_type
  field_args :: "argument list option"

record schema_type =
  st_kind :: type_kind
  st_fields :: "(string \<times> field) list"

type_synonym type_map = "(string \<times> schema_type) list"

definition getFields :: "schema_type \<Rightarrow> (string \<times> field) list option" where
  "getFields st =
     (if st_kind st \<in> {ObjectKind, InterfaceKind, InputObjectKind}
      then Some (st_fields st) else None)"

definition isInputObjectType :: "type_kind \<Rightarrow> bool" where
  "isInputObjectType k = (k = InputObjectKind)"

fun isListType :: "gql_type \<Rightarrow> bool" where
  "isListType (ListT t) = True"
| "isListType t = False"

fun isNonNullType :: "gql_type \<Rightarrow> bool" where
  "isNonNullType (NonNullT t) = True"
| "isNonNullType t = False"

fun getNamedType :: "gql_type \<Rightarrow> named_type" where
  "getNamedType (NamedT n) = n"
| "getNamedType (ListT t) = getNamedType t"
| "getNamedType (NonNullT t) = getNamedType t"

text \<open>
  Modelled from the spec: \<open>getTypeInfo\<close> of \<open>lib/utils\<close> is not among the sources.
  The spec's typed position reports the wrapper structure, the named leaf and whether
  the position is non-null; the validator destructures it as
  \<open>[type, namedType, isNonNull]\<close>, \<open>type\<close> being the declared type without its outer
  non-null wrapper.
\<close>

definition getTypeInfo :: "gql_type \<Rightarrow> gql_type \<times> named_type \<times> bool" where
  "getTypeInfo t =
     (let isNonNull = isNonNullType t;
          ty = (case t of NonNullT u \<Rightarrow> u | _ \<Rightarrow> t)
      in (ty, getNamedType ty, isNonNull))"

text \<open>
  Type inference \<open>inferJSONSchemaType\<close> lives in \<open>lib/utils\<close> as well; the synthesizer
  takes it as a parameter \<open>infer\<close>.
\<close>

type_synonym infer_fn = "named_type \<Rightarrow> bool \<Rightarrow> jsval"

section \<open>Schema synthesis\<close>

definition validation_base :: string where
  "validation_base = ''https://mercurius.dev/validation/''"

definition type_id :: "string \<Rightarrow> string" where
  "type_id typeName = validation_base @ typeName"

definition field_id :: "string \<Rightarrow> string \<Rightarrow> string" where
  "field_id typeName fieldName = validation_base @ typeName @ ''/'' @ fieldName"

definition argument_id :: "string \<Rightarrow> string \<Rightarrow> string \<Rightarrow> string" where
  "argument_id typeName fieldName argName =
     validation_base @ typeName @ ''/'' @ fieldName @ ''/'' @ argName"

text \<open>
  \<open>kValidationSchema\<close>. The override \<open>typeValidation\<close> is \<open>None\<close> for \<open>null\<close>; both
  call sites pass \<open>x || null\<close>, so it is never \<open>undefined\<close>. \<open>base\<close> is the fragment
  built before the final merge with the override.
\<close>

definition built_base ::
  "runtime \<Rightarrow> infer_fn \<Rightarrow> gql_type \<Rightarrow> named_type \<Rightarrow> bool \<Rightarrow> jsval option \<Rightarrow> string \<Rightarrow> props" where
  "built_base rt infer ty namedType isNonNull typeValidation ident =
     (let built = assign (ownProps (infer namedType isNonNull)) [(''$id'', JStr ident)]
      in if isInputObjectType (nt_kind namedType) then
           (if isListType ty then
              (let items = assign (ownProps (jsGet rt (JObj built) ''items''))
                             [(''$ref'', JStr (validation_base @ nt_name namedType))]
               in assign built
                    [(''type'', JStr ''array''), (''items'', JObj items),
                     (''nullable'', JBool (\<not> isNonNull))])
            else
              assign built
                [(''type'', JStr ''object''),
                 (''$ref'', JStr (validation_base @ nt_name namedType)),
                 (''nullable'', JBool (\<not> isNonNull))])
         else if isListType ty then
           (let items0 = assign (ownProps (infer namedType isNonNull))
                           (ownProps (jsGet rt (JObj built) ''items''));
                items = (case typeValidation of
                           None \<Rightarrow> items0
                         | Some tv \<Rightarrow> assign items0 (ownProps (jsGet rt tv ''items'')))
            in assign built
                 [(''type'', JStr ''array''), (''items'', JObj items),
                  (''nullable'', JBool (\<not> isNonNull))])
         else built)"

definition kValidationSchema ::
  "runtime \<Rightarrow> infer_fn \<Rightarrow> gql_type \<Rightarrow> named_type \<Rightarrow> bool \<Rightarrow> jsval option \<Rightarrow> string \<Rightarrow> jsval" where
  "kValidationSchema rt infer ty namedType isNonNull typeValidation ident =
     (let built = built_base rt infer ty namedType isNonNull typeValidation ident
      in case typeValidation of
           None \<Rightarrow> JObj built
         | Some tv \<Rightarrow> JObj (assign (ownProps tv) built))"

section \<open>Building the units of one field\<close>

text \<open>
  The override of a member: \<open>parent !== null ? parent[name] || null : null\<close>.
\<close>

definition overrideFor :: "runtime \<Rightarrow> jsval option \<Rightarrow> string \<Rightarrow> jsval option" where
  "overrideFor rt parent name =
     (case parent of None \<Rightarrow> None | Some p \<Rightarrow> orNull (jsGet rt p name))"

datatype error =
    MER_VALIDATION_ERR_FIELD_TYPE_UNDEFINED jsval
  | TypeError
  | BackendError

text \<open>
  Modelled from the spec: \<open>kOverrideFieldResolver\<close> of \<open>lib/validators/validator\<close> is
  not among the sources. It marks the field for interception; the model records the
  (type name, field name) pair in the list of intercepted fields.
\<close>

definition kOverrideFieldResolver ::
  "string \<Rightarrow> string \<Rightarrow> (string \<times> string) list \<Rightarrow> (string \<times> string) list" where
  "kOverrideFieldResolver typeName fieldName intercepted = intercepted @ [(typeName, fieldName)]"

text \<open>
  The body of the loop of \<open>kBuildArgumentsSchema\<close>: the fragment
  \<open>argumentValidationSchema\<close> of one argument. The loop stores it under the
  argument's name.
\<close>

definition argumentValidationSchema ::
  "runtime \<Rightarrow> infer_fn \<Rightarrow> string \<Rightarrow> string \<Rightarrow> jsval option \<Rightarrow> argument \<Rightarrow> jsval" where
  "argumentValidationSchema rt infer typeName fieldName fieldValidation a =
     (case getTypeInfo (arg_type a) of (argumentType, namedArgumentType, isNonNull) \<Rightarrow>
        (let argumentValidation = overrideFor rt fieldValidation (arg_name a);
             ident = argument_id typeName fieldName (arg_name a)
         in kValidationSchema rt infer argumentType namedArgumentType isNonNull
              argumentValidation ident))"

fun arguments_loop ::
  "runtime \<Rightarrow> infer_fn \<Rightarrow> string \<Rightarrow> string \<Rightarrow> jsval option \<Rightarrow> argument list \<Rightarrow> props \<Rightarrow> props" where
  "arguments_loop rt infer typeName fieldName fieldValidation [] properties = properties"
| "arguments_loop rt infer typeName fieldName fieldValidation (a # as) properties =
     arguments_loop rt infer typeName fieldName fieldValidation as
       (AList.update (arg_name a)
          (argumentValidationSchema rt infer typeName fieldName fieldValidation a) properties)"

text \<open>
  \<open>kBuildArgumentsSchema\<close>: iterating the \<open>undefined\<close> argument list of an input field
  is a \<open>TypeError\<close>; otherwise the argument object \<open>fieldArgumentsValidationSchema\<close> is
  returned and the field is marked.
\<close>

definition fieldArgumentsValidationSchema ::
  "runtime \<Rightarrow> infer_fn \<Rightarrow> string \<Rightarrow> string \<Rightarrow> argument list \<Rightarrow> jsval option \<Rightarrow> jsval" where
  "fieldArgumentsValidationSchema rt infer typeName fieldName args fieldValidation =
     JObj [(''$id'', JStr (field_id typeName fieldName)),
           (''type'', JStr ''object''),
           (''properties'',
              JObj (arguments_loop rt infer typeName fieldName fieldValidation args []))]"

definition kBuildArgumentsSchema ::
  "runtime \<Rightarrow> infer_fn \<Rightarrow> string \<Rightarrow> string \<Rightarrow> field \<Rightarrow> jsval option \<Rightarrow> (string \<times> string) list
     \<Rightarrow> (error + jsval) \<times> (string \<times> string) list" where
  "kBuildArgumentsSchema rt infer typeName fieldName schemaTypeField fieldValidation intercepted =
     (case field_args schemaTypeField of
        None \<Rightarrow> (Inl TypeError, intercepted)
      | Some args \<Rightarrow>
          (Inr (fieldArgumentsValidationSchema rt infer typeName fieldName args fieldValidation),
           kOverrideFieldResolver typeName fieldName intercepted))"

fun isString :: "jsval \<Rightarrow> bool" where
  "isString (JStr s) = True"
| "isString v = False"

fun isArray :: "jsval \<Rightarrow> bool" where
  "isArray (JArr xs) = True"
| "isArray v = False"

text \<open>
  \<open>kBuildInputTypeFieldSchema\<close>: \<open>Inl\<close> is the thrown error, \<open>Inr None\<close> the returned
  \<open>null\<close>.
\<close>

definition kBuildInputTypeFieldSchema ::
  "runtime \<Rightarrow> infer_fn \<Rightarrow> string \<Rightarrow> string \<Rightarrow> field \<Rightarrow> jsval option \<Rightarrow> error + jsval option" where
  "kBuildInputTypeFieldSchema rt infer typeName fieldName schemaTypeField fieldValidation =
     (case getTypeInfo (field_type schemaTypeField) of (fieldType, namedFieldType, isNonNull) \<Rightarrow>
        (let ident = field_id typeName fieldName;
             built = kValidationSchema rt infer fieldType namedFieldType isNonNull
                       fieldValidation ident
         in if fieldValidation \<noteq> None \<and> jsGet rt built ''type'' = JUndefined
            then Inl (MER_VALIDATION_ERR_FIELD_TYPE_UNDEFINED (jsGet rt built ''$id''))
            else if isString (jsGet rt built ''type'') \<or> isArray (jsGet rt built ''type'')
            then Inr (Some built)
            else Inr None))"

section \<open>The graph walk\<close>

definition hasArguments :: "field \<Rightarrow> bool" where
  "hasArguments f = (case field_args f of None \<Rightarrow> False | Some args \<Rightarrow> args \<noteq> [])"

text \<open>\<open>typeValidationSchema.properties[fieldName] = s\<close> on the type-level unit.\<close>

definition setProperty :: "runtime \<Rightarrow> props \<Rightarrow> string \<Rightarrow> jsval \<Rightarrow> props" where
  "setProperty rt typeValidationSchema fieldName s =
     AList.update ''properties''
       (JObj (AList.update fieldName s
                (ownProps (jsGet rt (JObj typeValidationSchema) ''properties''))))
       typeValidationSchema"

text \<open>
  The inner loop over the fields of one type. The accumulator is the type-level unit
  under construction and \<open>schemasToRegister\<close>; the list of intercepted fields is threaded
  beside the result because it survives a throw.
\<close>

fun fields_loop ::
  "runtime \<Rightarrow> infer_fn \<Rightarrow> string \<Rightarrow> type_kind \<Rightarrow> jsval option \<Rightarrow> (string \<times> field) list
     \<Rightarrow> props \<times> jsval list \<Rightarrow> (string \<times> string) list
     \<Rightarrow> (error + props \<times> jsval list) \<times> (string \<times> string) list" where
  "fields_loop rt infer typeName k typeValidation [] acc intercepted = (Inr acc, intercepted)"
| "fields_loop rt infer typeName k typeValidation ((fieldName, schemaTypeField) # rest)
     (typeValidationSchema, schemasToRegister) intercepted =
     (let fieldValidation = overrideFor rt typeValidation fieldName
      in if hasArguments schemaTypeField then
           (case kBuildArgumentsSchema rt infer typeName fieldName schemaTypeField
                   fieldValidation intercepted of
              (Inl e, intercepted') \<Rightarrow> (Inl e, intercepted')
            | (Inr s, intercepted') \<Rightarrow>
                fields_loop rt infer typeName k typeValidation rest
                  (typeValidationSchema, schemasToRegister @ [s]) intercepted')
         else if isInputObjectType k then
           (case kBuildInputTypeFieldSchema rt infer typeName fieldName schemaTypeField
                   fieldValidation of
              Inl e \<Rightarrow> (Inl e, intercepted)
            | Inr None \<Rightarrow>
                fields_loop rt infer typeName k typeValidation rest
                  (typeValidationSchema, schemasToRegister) intercepted
            | Inr (Some s) \<Rightarrow>
                fields_loop rt infer typeName k typeValidation rest
                  (setProperty rt typeValidationSchema fieldName s, schemasToRegister) intercepted)
         else
           fields_loop rt infer typeName k typeValidation rest
             (typeValidationSchema, schemasToRegister) intercepted)"

definition startsWith :: "string \<Rightarrow> string \<Rightarrow> bool" where
  "startsWith s p = (take (length p) s = p)"

definition initialTypeSchema :: "string \<Rightarrow> props" where
  "initialTypeSchema typeName =
     [(''$id'', JStr (type_id typeName)),
      (''type'', JStr ''object''),
      (''nullable'', JBool True),
      (''properties'', JObj [])]"

text \<open>
  The type-level unit before the fields are visited: a \<open>__typeValidation\<close> override of
  an input-object type is spread first, the built keys after it.
\<close>

definition typeSchemaStart ::
  "runtime \<Rightarrow> string \<Rightarrow> type_kind \<Rightarrow> jsval option \<Rightarrow> props" where
  "typeSchemaStart rt typeName k typeValidation =
     (case typeValidation of
        None \<Rightarrow> initialTypeSchema typeName
      | Some tv \<Rightarrow>
          if isInputObjectType k \<and> jsGet rt tv ''__typeValidation'' \<noteq> JUndefined
          then assign (ownProps (jsGet rt tv ''__typeValidation'')) (initialTypeSchema typeName)
          else initialTypeSchema typeName)"

text \<open>
  The outer loop over the type map. Reading \<open>validationSchema[typeName]\<close> from
  \<open>undefined\<close> or \<open>null\<close> is a \<open>TypeError\<close>.
\<close>

fun types_loop ::
  "runtime \<Rightarrow> infer_fn \<Rightarrow> jsval \<Rightarrow> type_map \<Rightarrow> jsval list \<Rightarrow> (string \<times> string) list
     \<Rightarrow> (error + jsval list) \<times> (string \<times> string) list" where
  "types_loop rt infer validationSchema [] schemasToRegister intercepted =
     (Inr schemasToRegister, intercepted)"
| "types_loop rt infer validationSchema ((typeName, schemaType) # rest) schemasToRegister intercepted =
     (if validationSchema = JUndefined \<or> validationSchema = JNull then (Inl TypeError, intercepted)
      else
        (let typeValidation = orNull (jsGet rt validationSchema typeName)
         in case getFields schemaType of
              Some typeFields \<Rightarrow>
                if \<not> startsWith typeName ''__'' then
                  (case fields_loop rt infer typeName (st_kind schemaType) typeValidation typeFields
                          (typeSchemaStart rt typeName (st_kind schemaType) typeValidation,
                           schemasToRegister) intercepted of
                     (Inl e, intercepted') \<Rightarrow> (Inl e, intercepted')
                   | (Inr (typeValidationSchema, schemasToRegister'), intercepted') \<Rightarrow>
                       types_loop rt infer validationSchema rest
                         (if isInputObjectType (st_kind schemaType)
                          then schemasToRegister' @ [JObj typeValidationSchema]
                          else schemasToRegister')
                         intercepted')
                else types_loop rt infer validationSchema rest schemasToRegister intercepted
            | None \<Rightarrow> types_loop rt infer validationSchema rest schemasToRegister intercepted))"

section \<open>The backend and the compilation pass\<close>

text \<open>
  Modelled from the spec: the schema-validation backend (Ajv) is an external
  collaborator. An instance holds the fragments registered under their keys and the keys
  whose compilation has been forced; it also logs every call it receives. Whether the
  backend rejects a fragment on registration, and whether forcing a compilation fails
  (malformed fragment, unresolved reference), is a parameter of the model.
\<close>

datatype ajv_call = AddSchema jsval | GetSchema jsval

record ajv =
  schemas :: "(jsval \<times> jsval) list"
  compiled :: "jsval list"
  calls :: "ajv_call list"

record backend =
  rejects :: "(jsval \<times> jsval) list \<Rightarrow> jsval \<Rightarrow> jsval \<Rightarrow> bool"
  compile_fails :: "(jsval \<times> jsval) list \<Rightarrow> jsval \<Rightarrow> bool"

definition newAjv :: ajv where
  "newAjv = \<lparr>schemas = [], compiled = [], calls = []\<rparr>"

definition addSchema :: "backend \<Rightarrow> jsval \<Rightarrow> jsval \<Rightarrow> ajv \<Rightarrow> error option \<times> ajv" where
  "addSchema B s key a =
     (let a' = a\<lparr>calls := calls a @ [AddSchema key]\<rparr>
      in if rejects B (schemas a) s key then (Some BackendError, a')
         else (None, a'\<lparr>schemas := schemas a @ [(key, s)]\<rparr>))"

definition getSchema :: "backend \<Rightarrow> jsval \<Rightarrow> ajv \<Rightarrow> error option \<times> ajv" where
  "getSchema B key a =
     (let a' = a\<lparr>calls := calls a @ [GetSchema key]\<rparr>
      in if key \<notin> fst ` set (schemas a) then (None, a')
         else if compile_fails B (schemas a) key then (Some BackendError, a')
         else (None, a'\<lparr>compiled := compiled a @ [key]\<rparr>))"

text \<open>The key a unit is registered under, \<open>schemaToRegister.$id\<close>.\<close>

definition unitKey :: "runtime \<Rightarrow> jsval \<Rightarrow> jsval" where
  "unitKey rt s = jsGet rt s ''$id''"

fun add_loop :: "runtime \<Rightarrow> backend \<Rightarrow> jsval list \<Rightarrow> ajv \<Rightarrow> error option \<times> ajv" where
  "add_loop rt B [] a = (None, a)"
| "add_loop rt B (s # rest) a =
     (case addSchema B s (unitKey rt s) a of
        (Some e, a') \<Rightarrow> (Some e, a')
      | (None, a') \<Rightarrow> add_loop rt B rest a')"

fun get_loop :: "runtime \<Rightarrow> backend \<Rightarrow> jsval list \<Rightarrow> ajv \<Rightarrow> error option \<times> ajv" where
  "get_loop rt B [] a = (None, a)"
| "get_loop rt B (s # rest) a =
     (case getSchema B (unitKey rt s) a of
        (Some e, a') \<Rightarrow> (Some e, a')
      | (None, a') \<Rightarrow> get_loop rt B rest a')"

text \<open>
  The validator's state: its backend instance \<open>kAjv\<close>, and the fields whose resolver
  has been overridden.
\<close>

record validator =
  kAjv :: ajv
  intercepted :: "(string \<times> string) list"

definition registerValidationSchema ::
  "runtime \<Rightarrow> backend \<Rightarrow> infer_fn \<Rightarrow> type_map \<Rightarrow> jsval \<Rightarrow> validator \<Rightarrow> error option \<times> validator" where
  "registerValidationSchema rt B infer schema validationSchema this =
     (let this0 = this\<lparr>kAjv := newAjv\<rparr>
      in case types_loop rt infer validationSchema schema [] (intercepted this0) of
           (Inl e, i) \<Rightarrow> (Some e, this0\<lparr>intercepted := i\<rparr>)
         | (Inr schemasToRegister, i) \<Rightarrow>
             (let this1 = this0\<lparr>intercepted := i\<rparr>
              in case add_loop rt B schemasToRegister (kAjv this1) of
                   (Some e, a) \<Rightarrow> (Some e, this1\<lparr>kAjv := a\<rparr>)
                 | (None, a) \<Rightarrow>
                     (case get_loop rt B schemasToRegister a of
                        (r, a') \<Rightarrow> (r, this1\<lparr>kAjv := a'\<rparr>))))"

section \<open>Reference identifiers\<close>

text \<open>
  A unit is named by its type, its type and field, or its type, field and argument; its
  reference id is the template string the validator writes for that level.
\<close>

datatype unit_name =
    TypeUnit string
  | FieldUnit string string
  | ArgumentUnit string string string

fun referenceId :: "unit_name \<Rightarrow> string" where
  "referenceId (TypeUnit t) = type_id t"
| "referenceId (FieldUnit t f) = field_id t f"
| "referenceId (ArgumentUnit t f a) = argument_id t f a"

text \<open>GraphQL names are made of letters, digits and underscores; none contains a slash.\<close>

definition slashFree :: "string \<Rightarrow> bool" where
  "slashFree s = (CHR ''/'' \<notin> set s)"

fun validName :: "unit_name \<Rightarrow> bool" where
  "validName (TypeUnit t) = slashFree t"
| "validName (FieldUnit t f) = (slashFree t \<and> slashFree f)"
| "validName (ArgumentUnit t f a) = (slashFree t \<and> slashFree f \<and> slashFree a)"

fun unitType :: "unit_name \<Rightarrow> string" where
  "unitType (TypeUnit t) = t"
| "unitType (FieldUnit t f) = t"
| "unitType (ArgumentUnit t f a) = t"

text \<open>
  The types the walk visits, and a graph whose type and field names are slash-free and
  occur once each, as the keys of the type map and of a field map do.
\<close>

definition visited :: "string \<times> schema_type \<Rightarrow> bool" where
  "visited e = (\<not> startsWith (fst e) ''__'' \<and> getFields (snd e) \<noteq> None)"

definition wellNamed :: "type_map \<Rightarrow> bool" where
  "wellNamed schema =
     (distinct (map fst schema) \<and>
      (\<forall>e \<in> set schema. slashFree (fst e) \<and>
         distinct (map fst (st_fields (snd e))) \<and>
         (\<forall>f \<in> set (st_fields (snd e)). slashFree (fst f))))"

section \<open>What a completed walk has produced\<close>

text \<open>
  The result of the walk when no builder throws, written without the error plumbing:
  the argument objects of one type's fields, the fields it marks, its type-level unit,
  and their concatenation over the type map. The loops are proved equal to these below.
\<close>

definition declaredArgs :: "field \<Rightarrow> argument list" where
  "declaredArgs f = (case field_args f of None \<Rightarrow> [] | Some args \<Rightarrow> args)"

definition argumentFields :: "(string \<times> field) list \<Rightarrow> (string \<times> field) list" where
  "argumentFields fs = filter (\<lambda>e. hasArguments (snd e)) fs"

definition fieldArgumentUnits ::
  "runtime \<Rightarrow> infer_fn \<Rightarrow> string \<Rightarrow> jsval option \<Rightarrow> (string \<times> field) list \<Rightarrow> jsval list" where
  "fieldArgumentUnits rt infer typeName typeValidation fs =
     map (\<lambda>e. fieldArgumentsValidationSchema rt infer typeName (fst e) (declaredArgs (snd e))
                (overrideFor rt typeValidation (fst e)))
       (argumentFields fs)"

definition addFieldProperty ::
  "runtime \<Rightarrow> infer_fn \<Rightarrow> string \<Rightarrow> type_kind \<Rightarrow> jsval option \<Rightarrow> string \<times> field \<Rightarrow> props \<Rightarrow> props" where
  "addFieldProperty rt infer typeName k typeValidation e typeValidationSchema =
     (if hasArguments (snd e) \<or> \<not> isInputObjectType k then typeValidationSchema
      else case kBuildInputTypeFieldSchema rt infer typeName (fst e) (snd e)
                  (overrideFor rt typeValidation (fst e)) of
             Inr (Some s) \<Rightarrow> setProperty rt typeValidationSchema (fst e) s
           | _ \<Rightarrow> typeValidationSchema)"

text \<open>The fragment a field contributes to the property set of its type, if any.\<close>

definition fieldProperty ::
  "runtime \<Rightarrow> infer_fn \<Rightarrow> string \<Rightarrow> type_kind \<Rightarrow> jsval option \<Rightarrow> string \<Rightarrow> field \<Rightarrow> jsval option" where
  "fieldProperty rt infer typeName k typeValidation fieldName schemaTypeField =
     (if hasArguments schemaTypeField \<or> \<not> isInputObjectType k then None
      else case kBuildInputTypeFieldSchema rt infer typeName fieldName schemaTypeField
                  (overrideFor rt typeValidation fieldName) of
             Inr (Some s) \<Rightarrow> Some s
           | _ \<Rightarrow> None)"

definition typeLevelUnit :: "runtime \<Rightarrow> infer_fn \<Rightarrow> jsval \<Rightarrow> string \<times> schema_type \<Rightarrow> jsval" where
  "typeLevelUnit rt infer validationSchema e =
     JObj (fold (addFieldProperty rt infer (fst e) (st_kind (snd e))
                   (orNull (jsGet rt validationSchema (fst e))))
             (st_fields (snd e))
             (typeSchemaStart rt (fst e) (st_kind (snd e))
                (orNull (jsGet rt validationSchema (fst e)))))"

definition typeUnits :: "runtime \<Rightarrow> infer_fn \<Rightarrow> jsval \<Rightarrow> string \<times> schema_type \<Rightarrow> jsval list" where
  "typeUnits rt infer validationSchema e =
     (if visited e then
        fieldArgumentUnits rt infer (fst e) (orNull (jsGet rt validationSchema (fst e)))
          (st_fields (snd e))
        @ (if isInputObjectType (st_kind (snd e))
           then [typeLevelUnit rt infer validationSchema e] else [])
      else [])"

definition walkUnits :: "runtime \<Rightarrow> infer_fn \<Rightarrow> jsval \<Rightarrow> type_map \<Rightarrow> jsval list" where
  "walkUnits rt infer validationSchema schema = concat (map (typeUnits rt infer validationSchema) schema)"

definition typeMarks :: "string \<times> schema_type \<Rightarrow> (string \<times> string) list" where
  "typeMarks e =
     (if visited e then map (\<lambda>f. (fst e, fst f)) (argumentFields (st_fields (snd e))) else [])"

definition walkMarks :: "type_map \<Rightarrow> (string \<times> string) list" where
  "walkMarks schema = concat (map typeMarks schema)"

text \<open>The names of the units a completed walk hands to the backend, in order.\<close>

definition typeUnitNames :: "string \<times> schema_type \<Rightarrow> unit_name list" where
  "typeUnitNames e =
     (if visited e then
        map (\<lambda>f. FieldUnit (fst e) (fst f)) (argumentFields (st_fields (snd e)))
        @ (if isInputObjectType (st_kind (snd e)) then [TypeUnit (fst e)] else [])
      else [])"

definition walkUnitNames :: "type_map \<Rightarrow> unit_name list" where
  "walkUnitNames schema = concat (map typeUnitNames schema)"

section \<open>Default inference, a reference-checking backend and sample graphs\<close>

text \<open>
  Modelled from the spec: the default \<open>inferJSONSchemaType\<close> of \<open>lib/utils\<close> is not
  among the sources. It maps the primitive leaf kinds to their schema types, nullable
  unless the position is non-null, and every other leaf to the empty fragment.
\<close>

definition inferJSONSchemaType :: infer_fn where
  "inferJSONSchemaType t isNonNull =
     (case map_of [(''String'', ''string''), (''Int'', ''integer''), (''Float'', ''number''),
                   (''Boolean'', ''boolean''), (''ID'', ''string'')] (nt_name t) of
        None \<Rightarrow> JObj []
      | Some js \<Rightarrow>
          if nt_kind t = ScalarKind
          then JObj [(''type'', if isNonNull then JStr js else JArr [JStr js, JStr ''null''])]
          else JObj [])"

text \<open>All values stored under a \<open>$ref\<close> key anywhere in a fragment.\<close>

fun refs_of :: "jsval \<Rightarrow> jsval list" where
  "refs_of (JObj kvs) =
     concat (map (\<lambda>p. (if fst p = ''$ref'' then [snd p] else []) @ refs_of (snd p)) kvs)"
| "refs_of (JArr xs) = concat (map refs_of xs)"
| "refs_of v = []"

text \<open>
  Modelled from the spec: a backend with named cross-references. Registering under a key
  that is already taken is refused, and forcing the compilation of a unit fails when one
  of its references has no registered target.
\<close>

definition refBackend :: backend where
  "refBackend =
     \<lparr>rejects = (\<lambda>store s key. key \<in> fst ` set store),
      compile_fails = (\<lambda>store key.
         case map_of store key of
           None \<Rightarrow> False
         | Some s \<Rightarrow> \<exists>r \<in> set (refs_of s). r \<notin> fst ` set store)\<rparr>"

definition String_t :: named_type where
  "String_t = \<lparr>nt_name = ''String'', nt_kind = ScalarKind\<rparr>"

definition Int_t :: named_type where
  "Int_t = \<lparr>nt_name = ''Int'', nt_kind = ScalarKind\<rparr>"

definition Kind_t :: named_type where
  "Kind_t = \<lparr>nt_name = ''Kind'', nt_kind = EnumKind\<rparr>"

definition Filters_t :: named_type where
  "Filters_t = \<lparr>nt_name = ''Filters'', nt_kind = InputObjectKind\<rparr>"

definition Nested_t :: named_type where
  "Nested_t = \<lparr>nt_name = ''Nested'', nt_kind = InputObjectKind\<rparr>"

text \<open>
  \<^verbatim>\<open>
  type Query {
    message(text: String): String
    search(filters: Filters, kind: Kind): [String]
    version: String
  }
  input Filters { text: String  kind: Kind  nested: Nested!  tags: [String!] }
  input Nested { n: Int }
  enum Kind
  \<close>
  together with the scalar \<open>String\<close> and the introspection type \<open>__Type\<close>, whose
  field \<open>fields\<close> takes an argument.
\<close>

definition search_field :: field where
  "search_field =
     \<lparr>field_type = ListT (NamedT String_t),
      field_args = Some [\<lparr>arg_name = ''filters'', arg_type = NamedT Filters_t\<rparr>,
                         \<lparr>arg_name = ''kind'', arg_type = NamedT Kind_t\<rparr>]\<rparr>"

definition message_field :: field where
  "message_field =
     \<lparr>field_type = NamedT String_t,
      field_args = Some [\<lparr>arg_name = ''text'', arg_type = NamedT String_t\<rparr>]\<rparr>"

definition Query_type :: schema_type where
  "Query_type =
     \<lparr>st_kind = ObjectKind,
      st_fields =
        [(''message'', message_field),
         (''search'', search_field),
         (''version'', \<lparr>field_type = NamedT String_t, field_args = Some []\<rparr>)]\<rparr>"

definition Filters_type :: schema_type where
  "Filters_type =
     \<lparr>st_kind = InputObjectKind,
      st_fields =
        [(''text'', \<lparr>field_type = NamedT String_t, field_args = None\<rparr>),
         (''kind'', \<lparr>field_type = NamedT Kind_t, field_args = None\<rparr>),
         (''nested'', \<lparr>field_type = NonNullT (NamedT Nested_t), field_args = None\<rparr>),
         (''tags'', \<lparr>field_type = ListT (NonNullT (NamedT String_t)), field_args = None\<rparr>)]\<rparr>"

definition Nested_type :: schema_type where
  "Nested_type =
     \<lparr>st_kind = InputObjectKind,
      st_fields = [(''n'', \<lparr>field_type = NamedT Int_t, field_args = None\<rparr>)]\<rparr>"

definition Meta_type :: schema_type where
  "Meta_type =
     \<lparr>st_kind = ObjectKind,
      st_fields =
        [(''fields'',
          \<lparr>field_type = NamedT String_t,
           field_args = Some [\<lparr>arg_name = ''includeDeprecated'',
                               arg_type = NamedT \<lparr>nt_name = ''Boolean'', nt_kind = ScalarKind\<rparr>\<rparr>]\<rparr>)]\<rparr>"

definition goodSchema :: type_map where
  "goodSchema =
     [(''Query'', Query_type),
      (''Filters'', Filters_type),
      (''Nested'', Nested_type),
      (''Kind'', \<lparr>st_kind = EnumKind, st_fields = []\<rparr>),
      (''String'', \<lparr>st_kind = ScalarKind, st_fields = []\<rparr>),
      (''__Type'', Meta_type)]"

text \<open>
  The overrides \<^verbatim>\<open>{ Filters: { text: { minLength: 3 } } }\<close>, and a replacement
  graph in which \<open>Filters.text\<close> has become an enum field, so that its overridden
  fragment has no type.
\<close>

definition sampleOverrides :: jsval where
  "sampleOverrides = JObj [(''Filters'', JObj [(''text'', JObj [(''minLength'', JNum 3)])])]"

definition badSchema :: type_map where
  "badSchema =
     [(''Query'', Query_type),
      (''Filters'',
       \<lparr>st_kind = InputObjectKind,
        st_fields = [(''text'', \<lparr>field_type = NamedT Kind_t, field_args = None\<rparr>)]\<rparr>),
      (''Kind'', \<lparr>st_kind = EnumKind, st_fields = []\<rparr>)]"

text \<open>
  The runtime table of the samples. Every value but \<open>undefined\<close> and \<open>null\<close>
  inherits the members of \<open>Object.prototype\<close>: \<open>constructor\<close> is the constructor of
  its kind, \<open>__proto__\<close> its prototype, the other members are built-in functions; an
  array and a string have their \<open>length\<close>. The further members of the built-in
  prototypes of arrays, strings, numbers and functions, and the own properties
  \<open>length\<close> and \<open>name\<close> of a function, are not listed: the sample override
  stores hold plain objects only.
\<close>

definition objectPrototypeMembers :: "string list" where
  "objectPrototypeMembers =
     [''constructor'', ''__defineGetter__'', ''__defineSetter__'', ''hasOwnProperty'',
      ''__lookupGetter__'', ''__lookupSetter__'', ''isPrototypeOf'',
      ''propertyIsEnumerable'', ''toString'', ''valueOf'', ''__proto__'',
      ''toLocaleString'']"

fun constructorOf :: "jsval \<Rightarrow> string" where
  "constructorOf (JObj kvs) = ''Object''"
| "constructorOf (JArr xs) = ''Array''"
| "constructorOf (JStr s) = ''String''"
| "constructorOf (JNum n) = ''Number''"
| "constructorOf (JBool b) = ''Boolean''"
| "constructorOf v = ''Function''"

definition nodeBuiltins :: runtime where
  "nodeBuiltins v k =
     (if v = JUndefined \<or> v = JNull then JUndefined
      else if k = ''length'' then
        (case v of
           JArr xs \<Rightarrow> JNum (int (length xs))
         | JStr t \<Rightarrow> JNum (int (length t))
         | _ \<Rightarrow> JUndefined)
      else if k = ''constructor'' then JBuiltin (constructorOf v)
      else if k = ''__proto__'' then JBuiltin (constructorOf v @ ''.prototype'')
      else if k \<in> set objectPrototypeMembers
      then JBuiltin (constructorOf v @ ''.prototype.'' @ k)
      else JUndefined)"

definition freshValidator :: validator where
  "freshValidator = \<lparr>kAjv = newAjv, intercepted = []\<rparr>"

text \<open>A pass over the sample graph from a fresh validator, then one over the replacement.\<close>

definition goodPass :: "error option \<times> validator" where
  "goodPass =
     registerValidationSchema nodeBuiltins refBackend inferJSONSchemaType goodSchema sampleOverrides
       freshValidator"

definition badPass :: "error option \<times> validator" where
  "badPass =
     registerValidationSchema nodeBuiltins refBackend inferJSONSchemaType badSchema sampleOverrides
       (snd goodPass)"

text \<open>
  An input type with a field named as a member of \<open>Object.prototype\<close>, for which the
  sample overrides hold no entry, and a pass over it:
  \<^verbatim>\<open>input Filters { text: String  constructor: Kind }\<close>.
\<close>

definition shadowSchema :: type_map where
  "shadowSchema =
     [(''Filters'',
       \<lparr>st_kind = InputObjectKind,
        st_fields =
          [(''text'', \<lparr>field_type = NamedT String_t, field_args = None\<rparr>),
           (''constructor'', \<lparr>field_type = NamedT Kind_t, field_args = None\<rparr>)]\<rparr>),
      (''Kind'', \<lparr>st_kind = EnumKind, st_fields = []\<rparr>)]"

definition shadowPass :: "error option \<times> validator" where
  "shadowPass =
     registerValidationSchema nodeBuiltins refBackend inferJSONSchemaType shadowSchema
       sampleOverrides freshValidator"

text \<open>
  Two overrides used below: one for the list position \<open>Filters.tags\<close>, one for the
  composite position of the argument \<open>filters\<close> of \<open>Query.search\<close>.
\<close>

definition tags_override :: jsval where
  "tags_override = JObj [(''nullable'', JBool False), (''minItems'', JNum 1)]"

definition filters_override :: jsval where
  "filters_override = JObj [(''required'', JArr [JStr ''text'']), (''nullable'', JBool False)]"

text \<open>
  Overrides for the argument \<open>filters\<close> of \<open>Query.search\<close> only, and overrides
  for \<open>Filters\<close> that carry a \<open>__typeValidation\<close> entry, each with a pass over
  the sample graph from a fresh validator.
\<close>

definition argumentOverrides :: jsval where
  "argumentOverrides =
     JObj [(''Query'', JObj [(''search'', JObj [(''filters'', filters_override)])])]"

definition argumentPass :: "error option \<times> validator" where
  "argumentPass =
     registerValidationSchema nodeBuiltins refBackend inferJSONSchemaType goodSchema
       argumentOverrides freshValidator"

definition typedOverrides :: jsval where
  "typedOverrides =
     JObj [(''Filters'',
            JObj [(''__typeValidation'',
                   JObj [(''type'', JStr ''string''), (''minProperties'', JNum 1)]),
                  (''text'', JObj [(''minLength'', JNum 3)])])]"

definition typedPass :: "error option \<times> validator" where
  "typedPass =
     registerValidationSchema nodeBuiltins refBackend inferJSONSchemaType goodSchema typedOverrides
       freshValidator"

section \<open>Objects: reading after a spread\<close>

lemma fold_update_distinct:
  "distinct (map fst c) \<Longrightarrow>
   map_of (fold (\<lambda>(k, v). AList.update k v) c a) = map_of a ++ map_of c"
proof (induction c arbitrary: a)
  case Nil
  then show ?case by simp
next
  case (Cons p c)
  obtain k v where p: "p = (k, v)" by (cases p)
  from Cons.prems p have nk: "map_of c k = None" and d: "distinct (map fst c)"
    by (auto simp: map_of_eq_None_iff)
  have "map_of (fold (\<lambda>(k, v). AList.update k v) (p # c) a)
        = map_of (AList.update k v a) ++ map_of c"
    using Cons.IH [OF d] p by simp
  also have "\<dots> = (map_of a)(k \<mapsto> v) ++ map_of c"
    by (simp only: update_conv')
  also have "\<dots> = map_of a ++ map_of (p # c)"
    using nk p by (auto simp: map_add_def fun_eq_iff split: option.splits)
  finally show ?case .
qed

lemma map_of_assign: "map_of (assign a b) = map_of a ++ map_of b"
  unfolding assign_def
  by (simp add: fold_update_distinct map_of_clearjunk)

lemma getProp_JObj:
  "getProp (JObj kvs) k = (case map_of kvs k of None \<Rightarrow> JUndefined | Some x \<Rightarrow> x)"
  by (simp add: getProp_def)

lemma jsGet_own: "map_of (ownProps v) k = Some x \<Longrightarrow> jsGet rt v k = x"
  by (simp add: jsGet_def)

lemma jsGet_JObj: "map_of kvs k = Some x \<Longrightarrow> jsGet rt (JObj kvs) k = x"
  by (simp add: jsGet_def)

lemma getProp_assign:
  "getProp (JObj (assign a b)) k =
     (case map_of b k of None \<Rightarrow> getProp (JObj a) k | Some x \<Rightarrow> x)"
  by (simp add: getProp_def map_of_assign map_add_def split: option.splits)

lemma getProp_assign_ownProps:
  "getProp (JObj (assign (ownProps v) b)) k =
     (case map_of b k of None \<Rightarrow> getProp v k | Some x \<Rightarrow> x)"
  by (simp add: getProp_def map_of_assign map_add_def split: option.splits)

lemma map_of_None_iff_keys: "(map_of b k = None) = (k \<notin> fst ` set b)"
  by (simp add: map_of_eq_None_iff)

lemma kValidationSchema_merge:
  "getProp (kValidationSchema rt infer ty nt nn (Some ov) ident) k =
     (if k \<in> fst ` set (built_base rt infer ty nt nn (Some ov) ident)
      then getProp (JObj (built_base rt infer ty nt nn (Some ov) ident)) k
      else getProp ov k)"
proof -
  have "getProp (kValidationSchema rt infer ty nt nn (Some ov) ident) k =
          (case map_of (built_base rt infer ty nt nn (Some ov) ident) k of
             None \<Rightarrow> getProp ov k | Some x \<Rightarrow> x)"
    by (simp add: kValidationSchema_def getProp_assign_ownProps)
  moreover have "(map_of (built_base rt infer ty nt nn (Some ov) ident) k = None) =
                   (k \<notin> fst ` set (built_base rt infer ty nt nn (Some ov) ident))"
    by (rule map_of_None_iff_keys)
  ultimately show ?thesis
    by (cases "map_of (built_base rt infer ty nt nn (Some ov) ident) k")
       (simp_all add: getProp_JObj)
qed

lemma built_base_id:
  "map_of (built_base rt infer ty nt nn tv ident) ''$id'' = Some (JStr ident)"
  by (simp add: built_base_def Let_def map_of_assign map_add_def split: option.splits)

lemma kValidationSchema_id:
  "getProp (kValidationSchema rt infer ty nt nn tv ident) ''$id'' = JStr ident"
proof (cases tv)
  case None
  then show ?thesis by (simp add: kValidationSchema_def getProp_JObj built_base_id)
next
  case (Some ov)
  then show ?thesis
    by (simp add: kValidationSchema_def getProp_assign_ownProps built_base_id)
qed

lemma built_base_composite:
  "isInputObjectType (nt_kind nt) \<Longrightarrow>
   built_base rt infer ty nt nn tv ident = built_base rt infer ty nt nn None ident"
  by (simp add: built_base_def)

lemma type_id_field_id: "type_id n = field_id t f \<Longrightarrow> \<not> slashFree n"
  by (auto simp: type_id_def field_id_def slashFree_def)

lemma type_id_argument_id: "type_id n = argument_id t f a \<Longrightarrow> \<not> slashFree n"
  by (auto simp: type_id_def argument_id_def slashFree_def)

section \<open>The synthesizer\<close>

text \<open>
  C1, as the code has it. With a schema-fragment override the merge is
  \<open>{ ...override, ...built }\<close>: every key of the synthesized fragment, the reference id
  and the computed type among them, keeps its synthesized value, and the override
  supplies exactly the keys the synthesized fragment does not have. In particular the
  reference id is always the one passed in.
\<close>

theorem override_merge_keeps_synthesized:
  "getProp (kValidationSchema rt infer ty nt nn (Some ov) ident) k =
     (if k \<in> fst ` set (built_base rt infer ty nt nn (Some ov) ident)
      then getProp (JObj (built_base rt infer ty nt nn (Some ov) ident)) k
      else getProp ov k) \<and>
   getProp (kValidationSchema rt infer ty nt nn (Some ov) ident) ''$id'' = JStr ident"
  by (simp add: kValidationSchema_merge kValidationSchema_id)

theorem override_merge_keeps_synthesized_witness:
  "getProp (kValidationSchema nodeBuiltins inferJSONSchemaType (ListT (NonNullT (NamedT String_t))) String_t
      False (Some tags_override) (field_id ''Filters'' ''tags'')) ''nullable'' = JBool True \<and>
   getProp (kValidationSchema nodeBuiltins inferJSONSchemaType (ListT (NonNullT (NamedT String_t))) String_t
      False (Some tags_override) (field_id ''Filters'' ''tags'')) ''minItems'' = JNum 1"
  using override_merge_keeps_synthesized [of nodeBuiltins inferJSONSchemaType
          "ListT (NonNullT (NamedT String_t))" String_t False tags_override
          "field_id ''Filters'' ''tags''" "''nullable''"]
        override_merge_keeps_synthesized [of nodeBuiltins inferJSONSchemaType
          "ListT (NonNullT (NamedT String_t))" String_t False tags_override
          "field_id ''Filters'' ''tags''" "''minItems''"]
  by (simp add: built_base_def inferJSONSchemaType_def String_t_def tags_override_def
        isInputObjectType_def assign_def getProp_def)

text \<open>
  C1, as the spec words it, fails: at the list position \<open>Filters.tags\<close> the key
  \<open>nullable\<close> is in the override (\<open>false\<close>) and in the synthesized fragment
  (\<open>true\<close>), it is neither the reference id nor the type, and the result carries the
  synthesized value.
\<close>

theorem override_precedence_counterexample:
  "map_of (ownProps tags_override) ''nullable'' = Some (JBool False) \<and>
   map_of (built_base nodeBuiltins inferJSONSchemaType (ListT (NonNullT (NamedT String_t))) String_t
      False (Some tags_override) (field_id ''Filters'' ''tags'')) ''nullable'' = Some (JBool True) \<and>
   getProp (kValidationSchema nodeBuiltins inferJSONSchemaType (ListT (NonNullT (NamedT String_t))) String_t
      False (Some tags_override) (field_id ''Filters'' ''tags'')) ''nullable''
     \<noteq> getProp tags_override ''nullable''"
  by (simp add: kValidationSchema_def built_base_def inferJSONSchemaType_def String_t_def
        tags_override_def isInputObjectType_def assign_def getProp_def)

lemma kValidationSchema_composite:
  assumes "isInputObjectType (nt_kind nt)"
  shows "getProp (kValidationSchema rt infer ty nt nn tv ident) ''nullable'' = JBool (\<not> nn) \<and>
         (isListType ty \<longrightarrow>
            getProp (kValidationSchema rt infer ty nt nn tv ident) ''type'' = JStr ''array'' \<and>
            getProp (getProp (kValidationSchema rt infer ty nt nn tv ident) ''items'') ''$ref''
              = JStr (type_id (nt_name nt))) \<and>
         (\<not> isListType ty \<longrightarrow>
            getProp (kValidationSchema rt infer ty nt nn tv ident) ''type'' = JStr ''object'' \<and>
            getProp (kValidationSchema rt infer ty nt nn tv ident) ''$ref''
              = JStr (type_id (nt_name nt)))"
  using assms
  by (cases tv)
     (simp_all add: kValidationSchema_def built_base_def Let_def getProp_assign_ownProps
        getProp_assign getProp_JObj map_of_assign map_add_def type_id_def)

text \<open>
  C3. At a position whose named leaf is an input-object type the fragment is nullable
  exactly when the position is not non-null; a list position has type \<open>array\<close> and its
  item shape carries the \<open>$ref\<close>, any other position has type \<open>object\<close> and carries
  the \<open>$ref\<close> itself; the \<open>$ref\<close> is the type-level id of the leaf, which for a
  slash-free type name is no field-level and no argument-level id. This holds under any
  inference function and any override.
\<close>

theorem composite_leaf_reference:
  assumes "isInputObjectType (nt_kind nt)"
  shows "getProp (kValidationSchema rt infer ty nt nn tv ident) ''nullable'' = JBool (\<not> nn) \<and>
         (isListType ty \<longrightarrow>
            getProp (kValidationSchema rt infer ty nt nn tv ident) ''type'' = JStr ''array'' \<and>
            getProp (getProp (kValidationSchema rt infer ty nt nn tv ident) ''items'') ''$ref''
              = JStr (type_id (nt_name nt))) \<and>
         (\<not> isListType ty \<longrightarrow>
            getProp (kValidationSchema rt infer ty nt nn tv ident) ''type'' = JStr ''object'' \<and>
            getProp (kValidationSchema rt infer ty nt nn tv ident) ''$ref''
              = JStr (type_id (nt_name nt))) \<and>
         type_id (nt_name nt) = ''https://mercurius.dev/validation/'' @ nt_name nt \<and>
         (slashFree (nt_name nt) \<longrightarrow>
            (\<forall>t f. type_id (nt_name nt) \<noteq> field_id t f) \<and>
            (\<forall>t f a. type_id (nt_name nt) \<noteq> argument_id t f a))"
proof -
  have "getProp (kValidationSchema rt infer ty nt nn tv ident) ''nullable'' = JBool (\<not> nn) \<and>
         (isListType ty \<longrightarrow>
            getProp (kValidationSchema rt infer ty nt nn tv ident) ''type'' = JStr ''array'' \<and>
            getProp (getProp (kValidationSchema rt infer ty nt nn tv ident) ''items'') ''$ref''
              = JStr (type_id (nt_name nt))) \<and>
         (\<not> isListType ty \<longrightarrow>
            getProp (kValidationSchema rt infer ty nt nn tv ident) ''type'' = JStr ''object'' \<and>
            getProp (kValidationSchema rt infer ty nt nn tv ident) ''$ref''
              = JStr (type_id (nt_name nt)))"
    by (rule kValidationSchema_composite [OF assms])
  moreover have "type_id (nt_name nt) = ''https://mercurius.dev/validation/'' @ nt_name nt"
    by (simp add: type_id_def validation_base_def)
  moreover have "slashFree (nt_name nt) \<longrightarrow>
            (\<forall>t f. type_id (nt_name nt) \<noteq> field_id t f) \<and>
            (\<forall>t f a. type_id (nt_name nt) \<noteq> argument_id t f a)"
    using type_id_field_id type_id_argument_id by blast
  ultimately show ?thesis by blast
qed

theorem composite_leaf_reference_witness:
  "isInputObjectType (nt_kind Filters_t) \<and> isListType (ListT (NamedT Filters_t)) \<and>
   slashFree (nt_name Filters_t) \<and>
   getProp (kValidationSchema nodeBuiltins inferJSONSchemaType (ListT (NamedT Filters_t)) Filters_t True
      (Some filters_override) (argument_id ''Query'' ''search'' ''filters'')) ''nullable''
     = JBool False \<and>
   getProp (kValidationSchema nodeBuiltins inferJSONSchemaType (ListT (NamedT Filters_t)) Filters_t True
      (Some filters_override) (argument_id ''Query'' ''search'' ''filters'')) ''type''
     = JStr ''array'' \<and>
   getProp (getProp (kValidationSchema nodeBuiltins inferJSONSchemaType (ListT (NamedT Filters_t)) Filters_t
      True (Some filters_override) (argument_id ''Query'' ''search'' ''filters'')) ''items'')
      ''$ref'' = JStr ''https://mercurius.dev/validation/Filters'' \<and>
   type_id (nt_name Filters_t) \<noteq> field_id ''Query'' ''search''"
proof -
  have h: "isInputObjectType (nt_kind Filters_t)"
    by (simp add: Filters_t_def isInputObjectType_def)
  have l: "isListType (ListT (NamedT Filters_t))" by simp
  have s: "slashFree (nt_name Filters_t)" by (simp add: Filters_t_def slashFree_def)
  have n: "nt_name Filters_t = ''Filters''" by (simp add: Filters_t_def)
  note t = composite_leaf_reference [OF h, of nodeBuiltins inferJSONSchemaType
            "ListT (NamedT Filters_t)" True "Some filters_override"
            "argument_id ''Query'' ''search'' ''filters''"]
  from t l s have
    "getProp (kValidationSchema nodeBuiltins inferJSONSchemaType (ListT (NamedT Filters_t)) Filters_t True
      (Some filters_override) (argument_id ''Query'' ''search'' ''filters'')) ''nullable''
     = JBool (\<not> True)"
    and "getProp (kValidationSchema nodeBuiltins inferJSONSchemaType (ListT (NamedT Filters_t)) Filters_t True
      (Some filters_override) (argument_id ''Query'' ''search'' ''filters'')) ''type''
     = JStr ''array''"
    and "getProp (getProp (kValidationSchema nodeBuiltins inferJSONSchemaType (ListT (NamedT Filters_t)) Filters_t
      True (Some filters_override) (argument_id ''Query'' ''search'' ''filters'')) ''items'')
      ''$ref'' = JStr (type_id (nt_name Filters_t))"
    and "type_id (nt_name Filters_t) = ''https://mercurius.dev/validation/'' @ nt_name Filters_t"
    and "type_id (nt_name Filters_t) \<noteq> field_id ''Query'' ''search''"
    by blast+
  with h l s show ?thesis
    by (simp add: n)
qed

text \<open>
  C8, as the code has it. At a composite-leaf position the override cannot change any
  key the synthesized fragment sets (the reference id, the type, the nullability, the
  \<open>$ref\<close> or the \<open>items\<close> holding it, and whatever inference returned), and every
  other key of the override is carried into the fragment with the override's value.
\<close>

theorem composite_override_passthrough:
  assumes "isInputObjectType (nt_kind nt)"
  shows "getProp (kValidationSchema rt infer ty nt nn (Some ov) ident) k =
           (if k \<in> fst ` set (ownProps (kValidationSchema rt infer ty nt nn None ident))
            then getProp (kValidationSchema rt infer ty nt nn None ident) k
            else getProp ov k)"
proof -
  have n: "kValidationSchema rt infer ty nt nn None ident =
             JObj (built_base rt infer ty nt nn None ident)"
    by (simp add: kValidationSchema_def)
  show ?thesis
    unfolding n kValidationSchema_merge
      built_base_composite [OF assms, of rt infer ty nn "Some ov" ident]
    by simp
qed

theorem composite_override_passthrough_witness:
  "isInputObjectType (nt_kind Filters_t) \<and>
   getProp (kValidationSchema nodeBuiltins inferJSONSchemaType (NamedT Filters_t) Filters_t False
      (Some filters_override) (argument_id ''Query'' ''search'' ''filters'')) ''nullable''
     = JBool True \<and>
   getProp (kValidationSchema nodeBuiltins inferJSONSchemaType (NamedT Filters_t) Filters_t False
      (Some filters_override) (argument_id ''Query'' ''search'' ''filters'')) ''required''
     = JArr [JStr ''text'']"
proof -
  have h: "isInputObjectType (nt_kind Filters_t)"
    by (simp add: Filters_t_def isInputObjectType_def)
  show ?thesis
    using h
      composite_override_passthrough [OF h, of nodeBuiltins inferJSONSchemaType "NamedT Filters_t" False
        filters_override "argument_id ''Query'' ''search'' ''filters''" "''nullable''"]
      composite_override_passthrough [OF h, of nodeBuiltins inferJSONSchemaType "NamedT Filters_t" False
        filters_override "argument_id ''Query'' ''search'' ''filters''" "''required''"]
    by (simp add: kValidationSchema_def built_base_def inferJSONSchemaType_def Filters_t_def
          filters_override_def isInputObjectType_def assign_def getProp_def)
qed

text \<open>
  C8, as the spec words it, fails: at the composite position of the argument
  \<open>filters\<close> the override's \<open>required\<close> constraint is in the result, which without the
  override has no such key.
\<close>

theorem composite_override_counterexample:
  "isInputObjectType (nt_kind Filters_t) \<and>
   getProp (kValidationSchema nodeBuiltins inferJSONSchemaType (NamedT Filters_t) Filters_t False
      (Some filters_override) (argument_id ''Query'' ''search'' ''filters'')) ''required''
     = JArr [JStr ''text''] \<and>
   getProp (kValidationSchema nodeBuiltins inferJSONSchemaType (NamedT Filters_t) Filters_t False
      None (argument_id ''Query'' ''search'' ''filters'')) ''required'' = JUndefined"
  by (simp add: kValidationSchema_def built_base_def inferJSONSchemaType_def Filters_t_def
        filters_override_def isInputObjectType_def assign_def getProp_def)

section \<open>The walk, when it completes\<close>

lemma kBuildArgumentsSchema_hasArguments:
  "hasArguments fld \<Longrightarrow>
   kBuildArgumentsSchema rt infer T f fld fv i =
     (Inr (fieldArgumentsValidationSchema rt infer T f (declaredArgs fld) fv), i @ [(T, f)])"
  by (auto simp: hasArguments_def kBuildArgumentsSchema_def declaredArgs_def
        kOverrideFieldResolver_def split: option.splits)

lemma fields_loop_Inr:
  "fields_loop rt infer T k tv fs (tvs, regs) i = (Inr (tvs', regs'), i') \<Longrightarrow>
     tvs' = fold (addFieldProperty rt infer T k tv) fs tvs \<and>
     regs' = regs @ fieldArgumentUnits rt infer T tv fs \<and>
     i' = i @ map (\<lambda>f. (T, fst f)) (argumentFields fs)"
proof (induction fs arbitrary: tvs regs i)
  case Nil
  then show ?case by (simp add: fieldArgumentUnits_def argumentFields_def)
next
  case (Cons e fs)
  obtain f fld where e: "e = (f, fld)" by (cases e)
  show ?case
  proof (cases "hasArguments fld")
    case True
    with Cons.prems e have
      "fields_loop rt infer T k tv fs
         (tvs, regs @ [fieldArgumentsValidationSchema rt infer T f (declaredArgs fld) (overrideFor rt tv f)])
         (i @ [(T, f)]) = (Inr (tvs', regs'), i')"
      by (simp add: kBuildArgumentsSchema_hasArguments)
    from Cons.IH [OF this] True e show ?thesis
      by (simp add: fieldArgumentUnits_def argumentFields_def addFieldProperty_def)
  next
    case False
    note noargs = this
    show ?thesis
    proof (cases "isInputObjectType k")
      case False
      with Cons.prems e noargs have
        "fields_loop rt infer T k tv fs (tvs, regs) i = (Inr (tvs', regs'), i')"
        by simp
      from Cons.IH [OF this] False noargs e show ?thesis
        by (simp add: fieldArgumentUnits_def argumentFields_def addFieldProperty_def)
    next
      case True
      show ?thesis
      proof (cases "kBuildInputTypeFieldSchema rt infer T f fld (overrideFor rt tv f)")
        case (Inl err)
        with Cons.prems e noargs True show ?thesis by simp
      next
        case (Inr r)
        show ?thesis
        proof (cases r)
          case None
          with Inr Cons.prems e noargs True have
            "fields_loop rt infer T k tv fs (tvs, regs) i = (Inr (tvs', regs'), i')"
            by simp
          from Cons.IH [OF this] None Inr True noargs e show ?thesis
            by (simp add: fieldArgumentUnits_def argumentFields_def addFieldProperty_def)
        next
          case (Some s)
          with Inr Cons.prems e noargs True have
            "fields_loop rt infer T k tv fs (setProperty rt tvs f s, regs) i = (Inr (tvs', regs'), i')"
            by simp
          from Cons.IH [OF this] Some Inr True noargs e show ?thesis
            by (simp add: fieldArgumentUnits_def argumentFields_def addFieldProperty_def)
        qed
      qed
    qed
  qed
qed

lemma fields_loop_frame:
  "fields_loop rt infer T k tv fs acc (i @ j) =
     (case fields_loop rt infer T k tv fs acc j of (r, j') \<Rightarrow> (r, i @ j'))"
proof (induction fs arbitrary: acc j)
  case Nil
  then show ?case by simp
next
  case (Cons e fs)
  obtain f fld where e: "e = (f, fld)" by (cases e)
  obtain tvs regs where acc: "acc = (tvs, regs)" by (cases acc)
  have k: "\<And>fv. kBuildArgumentsSchema rt infer T f fld fv (i @ j) =
             (case kBuildArgumentsSchema rt infer T f fld fv j of (r, j') \<Rightarrow> (r, i @ j'))"
    by (simp add: kBuildArgumentsSchema_def kOverrideFieldResolver_def split: option.splits)
  show ?case
    unfolding e acc
    by (simp add: k Cons.IH Let_def split: prod.splits sum.splits option.splits)
qed

lemma types_loop_frame:
  "types_loop rt infer vs schema regs (i @ j) =
     (case types_loop rt infer vs schema regs j of (r, j') \<Rightarrow> (r, i @ j'))"
proof (induction schema arbitrary: regs j)
  case Nil
  then show ?case by simp
next
  case (Cons e schema)
  obtain T st where e: "e = (T, st)" by (cases e)
  show ?case
    unfolding e
    by (simp add: fields_loop_frame Cons.IH Let_def split: prod.splits sum.splits option.splits)
qed

lemma types_loop_Inr:
  "types_loop rt infer vs schema regs i = (Inr regs', i') \<Longrightarrow>
     regs' = regs @ walkUnits rt infer vs schema \<and> i' = i @ walkMarks schema"
proof (induction schema arbitrary: regs i)
  case Nil
  then show ?case by (simp add: walkUnits_def walkMarks_def)
next
  case (Cons e schema)
  obtain T st where e: "e = (T, st)" by (cases e)
  from Cons.prems e have nn: "vs \<noteq> JUndefined" "vs \<noteq> JNull"
    by (auto split: if_splits)
  show ?case
  proof (cases "visited e")
    case False
    with Cons.prems e nn have "types_loop rt infer vs schema regs i = (Inr regs', i')"
      by (auto simp: visited_def Let_def split: option.splits if_splits)
    from Cons.IH [OF this] False show ?thesis
      by (simp add: walkUnits_def walkMarks_def typeUnits_def typeMarks_def)
  next
    case True
    then obtain fs where fs: "getFields st = Some fs" and nst: "\<not> startsWith T ''__''"
      using e by (auto simp: visited_def)
    from fs have fs_eq: "fs = st_fields st"
      by (auto simp: getFields_def split: if_splits)
    let ?tv = "orNull (jsGet rt vs T)"
    obtain r j where fl:
      "fields_loop rt infer T (st_kind st) ?tv fs
         (typeSchemaStart rt T (st_kind st) ?tv, regs) i = (r, j)"
      by (cases "fields_loop rt infer T (st_kind st) ?tv fs
                   (typeSchemaStart rt T (st_kind st) ?tv, regs) i")
    show ?thesis
    proof (cases r)
      case (Inl err)
      with Cons.prems e nn fs nst fl show ?thesis by (simp add: Let_def)
    next
      case (Inr p)
      obtain tvs rs where p: "p = (tvs, rs)" by (cases p)
      from fields_loop_Inr [OF fl [unfolded Inr p]]
      have tvs: "tvs = fold (addFieldProperty rt infer T (st_kind st) ?tv) fs
                         (typeSchemaStart rt T (st_kind st) ?tv)"
        and rs: "rs = regs @ fieldArgumentUnits rt infer T ?tv fs"
        and j: "j = i @ map (\<lambda>f. (T, fst f)) (argumentFields fs)"
        by simp_all
      from Cons.prems e nn fs nst fl Inr p have
        "types_loop rt infer vs schema
           (if isInputObjectType (st_kind st) then rs @ [JObj tvs] else rs) j = (Inr regs', i')"
        by (simp add: Let_def)
      from Cons.IH [OF this] True e tvs rs j fs_eq show ?thesis
        by (simp add: walkUnits_def walkMarks_def typeUnits_def typeMarks_def typeLevelUnit_def)
    qed
  qed
qed

section \<open>The backend loops and the pass\<close>

lemma types_loop_result_indep:
  "types_loop rt infer vs schema regs i =
     (fst (types_loop rt infer vs schema regs []), i @ snd (types_loop rt infer vs schema regs []))"
  using types_loop_frame [of rt infer vs schema regs i "[]"]
  by (simp add: case_prod_beta)

lemma add_loop_None:
  "add_loop rt B us a = (None, a') \<Longrightarrow>
     calls a' = calls a @ map (\<lambda>u. AddSchema (unitKey rt u)) us \<and>
     schemas a' = schemas a @ map (\<lambda>u. (unitKey rt u, u)) us \<and>
     compiled a' = compiled a"
proof (induction us arbitrary: a)
  case Nil
  then show ?case by simp
next
  case (Cons u us)
  show ?case
  proof (cases "rejects B (schemas a) u (unitKey rt u)")
    case True
    with Cons.prems show ?thesis by (simp add: addSchema_def Let_def)
  next
    case False
    with Cons.prems have
      "add_loop rt B us (a\<lparr>calls := calls a @ [AddSchema (unitKey rt u)],
                         schemas := schemas a @ [(unitKey rt u, u)]\<rparr>) = (None, a')"
      by (simp add: addSchema_def Let_def)
    from Cons.IH [OF this] show ?thesis by simp
  qed
qed

lemma add_loop_Some:
  "add_loop rt B us a = (Some e, a') \<Longrightarrow>
     \<exists>n < length us.
       calls a' = calls a @ map (\<lambda>u. AddSchema (unitKey rt u)) (take (Suc n) us) \<and>
       schemas a' = schemas a @ map (\<lambda>u. (unitKey rt u, u)) (take n us) \<and>
       compiled a' = compiled a"
proof (induction us arbitrary: a)
  case Nil
  then show ?case by simp
next
  case (Cons u us)
  show ?case
  proof (cases "rejects B (schemas a) u (unitKey rt u)")
    case True
    with Cons.prems have "a' = a\<lparr>calls := calls a @ [AddSchema (unitKey rt u)]\<rparr>"
      by (simp add: addSchema_def Let_def)
    then have "calls a' = calls a @ map (\<lambda>u. AddSchema (unitKey rt u)) (take (Suc 0) (u # us)) \<and>
       schemas a' = schemas a @ map (\<lambda>u. (unitKey rt u, u)) (take 0 (u # us)) \<and>
       compiled a' = compiled a"
      by simp
    then show ?thesis by (intro exI [of _ 0]) simp
  next
    case False
    with Cons.prems have
      "add_loop rt B us (a\<lparr>calls := calls a @ [AddSchema (unitKey rt u)],
                         schemas := schemas a @ [(unitKey rt u, u)]\<rparr>) = (Some e, a')"
      by (simp add: addSchema_def Let_def)
    from Cons.IH [OF this] obtain n where n: "n < length us"
      "calls a' = calls a @ AddSchema (unitKey rt u) # map (\<lambda>u. AddSchema (unitKey rt u)) (take (Suc n) us)"
      "schemas a' = schemas a @ (unitKey rt u, u) # map (\<lambda>u. (unitKey rt u, u)) (take n us)"
      "compiled a' = compiled a"
      by auto
    then show ?thesis by (intro exI [of _ "Suc n"]) simp
  qed
qed

lemma get_loop_result:
  "get_loop rt B us a = (r, a') \<Longrightarrow>
     \<exists>m \<le> length us.
       calls a' = calls a @ map (\<lambda>u. GetSchema (unitKey rt u)) (take m us) \<and>
       schemas a' = schemas a"
proof (induction us arbitrary: a)
  case Nil
  then show ?case by simp
next
  case (Cons u us)
  obtain r1 a1 where g: "getSchema B (unitKey rt u) a = (r1, a1)"
    by (cases "getSchema B (unitKey rt u) a")
  then have a1: "calls a1 = calls a @ [GetSchema (unitKey rt u)]" "schemas a1 = schemas a"
    by (auto simp: getSchema_def Let_def split: if_splits)
  show ?case
  proof (cases r1)
    case (Some e)
    with Cons.prems g have "a' = a1" by simp
    with a1 have "calls a' = calls a @ map (\<lambda>u. GetSchema (unitKey rt u)) (take (Suc 0) (u # us)) \<and>
       schemas a' = schemas a"
      by simp
    then show ?thesis by (intro exI [of _ "Suc 0"]) simp
  next
    case None
    with Cons.prems g have "get_loop rt B us a1 = (r, a')" by simp
    from Cons.IH [OF this] a1 obtain m where "m \<le> length us"
      "calls a' = calls a @ GetSchema (unitKey rt u) # map (\<lambda>u. GetSchema (unitKey rt u)) (take m us)"
      "schemas a' = schemas a"
      by auto
    then show ?thesis by (intro exI [of _ "Suc m"]) simp
  qed
qed

lemma register_walk_fails:
  "types_loop rt infer vs schema [] (intercepted this) = (Inl e, i) \<Longrightarrow>
   registerValidationSchema rt B infer schema vs this =
     (Some e, this\<lparr>kAjv := newAjv, intercepted := i\<rparr>)"
  by (simp add: registerValidationSchema_def Let_def)

lemma register_kAjv_indep:
  "fst (registerValidationSchema rt B infer schema vs this) =
     fst (registerValidationSchema rt B infer schema vs this0) \<and>
   kAjv (snd (registerValidationSchema rt B infer schema vs this)) =
     kAjv (snd (registerValidationSchema rt B infer schema vs this0))"
proof -
  obtain r d where w: "types_loop rt infer vs schema [] [] = (r, d)"
    by (cases "types_loop rt infer vs schema [] []")
  define K where
    "K = (case r of
            Inl e \<Rightarrow> (Some e, newAjv)
          | Inr us \<Rightarrow>
              (case add_loop rt B us newAjv of
                 (Some e, a) \<Rightarrow> (Some e, a)
               | (None, a) \<Rightarrow> get_loop rt B us a))"
  have "(fst (registerValidationSchema rt B infer schema vs t),
         kAjv (snd (registerValidationSchema rt B infer schema vs t))) = K" for t
  proof -
    have wt: "types_loop rt infer vs schema [] (intercepted t) = (r, intercepted t @ d)"
      using types_loop_result_indep [of rt infer vs schema "[]" "intercepted t"] w by simp
    show ?thesis
      unfolding registerValidationSchema_def K_def Let_def
      by (simp add: wt split: prod.splits sum.splits option.splits)
  qed
  from this [of this] this [of this0] show ?thesis by (metis prod.inject)
qed

lemma register_add_fails:
  "types_loop rt infer vs schema [] (intercepted this) = (Inr us, i) \<Longrightarrow>
   add_loop rt B us newAjv = (Some e, a) \<Longrightarrow>
   registerValidationSchema rt B infer schema vs this =
     (Some e, this\<lparr>kAjv := a, intercepted := i\<rparr>)"
  by (simp add: registerValidationSchema_def Let_def)

lemma register_added:
  "types_loop rt infer vs schema [] (intercepted this) = (Inr us, i) \<Longrightarrow>
   add_loop rt B us newAjv = (None, a) \<Longrightarrow>
   get_loop rt B us a = (rg, a') \<Longrightarrow>
   registerValidationSchema rt B infer schema vs this =
     (rg, this\<lparr>kAjv := a', intercepted := i\<rparr>)"
  by (simp add: registerValidationSchema_def Let_def)

lemma adds_before_gets:
  assumes c: "cs = map (\<lambda>u. AddSchema (f u)) xs @ map (\<lambda>u. GetSchema (f u)) ys"
    and p: "p < length cs" "cs ! p = GetSchema k"
    and q: "q < length cs" "cs ! q = AddSchema k'"
  shows "q < p"
proof -
  have "\<not> p < length xs"
  proof
    assume "p < length xs"
    with c p show False by (simp add: nth_append)
  qed
  moreover have "q < length xs"
  proof (rule ccontr)
    assume "\<not> q < length xs"
    with c q show False by (simp add: nth_append)
  qed
  ultimately show ?thesis by simp
qed


text \<open>
  C4. In the log of backend calls left by a pass, every registration precedes every
  forced compilation: the log is the registrations of a prefix of the walk's units
  followed by the compilations of a prefix of them; a compilation is attempted only
  after all units have been registered, and while the compilations run the backend
  holds every unit of the walk under its key, so a reference to a unit produced later
  in the walk has its target. A walk that throws makes no backend call.
\<close>

theorem registration_precedes_compilation:
  assumes reg: "registerValidationSchema rt B infer schema vs this = (r, this')"
  shows "(\<forall>e i. types_loop rt infer vs schema [] (intercepted this) = (Inl e, i) \<longrightarrow>
            calls (kAjv this') = []) \<and>
         (\<forall>units i. types_loop rt infer vs schema [] (intercepted this) = (Inr units, i) \<longrightarrow>
            (\<exists>n m. n \<le> length units \<and> m \<le> length units \<and>
               calls (kAjv this') =
                 map (\<lambda>u. AddSchema (unitKey rt u)) (take n units) @
                 map (\<lambda>u. GetSchema (unitKey rt u)) (take m units) \<and>
               (0 < m \<longrightarrow> n = length units \<and>
                  schemas (kAjv this') = map (\<lambda>u. (unitKey rt u, u)) units))) \<and>
         (\<forall>p q k k'. p < length (calls (kAjv this')) \<and> q < length (calls (kAjv this')) \<and>
            calls (kAjv this') ! p = GetSchema k \<and> calls (kAjv this') ! q = AddSchema k'
            \<longrightarrow> q < p)"
proof -
  obtain w i where w: "types_loop rt infer vs schema [] (intercepted this) = (w, i)"
    by (cases "types_loop rt infer vs schema [] (intercepted this)")
  show ?thesis
  proof (cases w)
    case (Inl e)
    from register_walk_fails [OF w [unfolded Inl], of B] reg
    have "this' = this\<lparr>kAjv := newAjv, intercepted := i\<rparr>" by simp
    then have "calls (kAjv this') = []" by (simp add: newAjv_def)
    with w Inl show ?thesis by simp
  next
    case (Inr units)
    note wu = w [unfolded Inr]
    obtain ra a where al: "add_loop rt B units newAjv = (ra, a)"
      by (cases "add_loop rt B units newAjv")
    have ex: "\<exists>n m. n \<le> length units \<and> m \<le> length units \<and>
               calls (kAjv this') =
                 map (\<lambda>u. AddSchema (unitKey rt u)) (take n units) @
                 map (\<lambda>u. GetSchema (unitKey rt u)) (take m units) \<and>
               (0 < m \<longrightarrow> n = length units \<and>
                  schemas (kAjv this') = map (\<lambda>u. (unitKey rt u, u)) units)"
    proof (cases ra)
      case (Some e)
      from register_add_fails [OF wu al [unfolded Some]] reg
      have "this' = this\<lparr>kAjv := a, intercepted := i\<rparr>" by simp
      then have k: "kAjv this' = a" by simp
      from add_loop_Some [OF al [unfolded Some]] obtain n where n: "n < length units"
        "calls a = calls newAjv @ map (\<lambda>u. AddSchema (unitKey rt u)) (take (Suc n) units)"
        by blast
      from n(2) have c: "calls a = map (\<lambda>u. AddSchema (unitKey rt u)) (take (Suc n) units)"
        by (simp add: newAjv_def)
      have "Suc n \<le> length units \<and> (0::nat) \<le> length units \<and>
               calls (kAjv this') =
                 map (\<lambda>u. AddSchema (unitKey rt u)) (take (Suc n) units) @
                 map (\<lambda>u. GetSchema (unitKey rt u)) (take 0 units) \<and>
               ((0::nat) < 0 \<longrightarrow> Suc n = length units \<and>
                  schemas (kAjv this') = map (\<lambda>u. (unitKey rt u, u)) units)"
        using n(1) c k by simp
      then show ?thesis by blast
    next
      case None
      obtain rg a' where gl: "get_loop rt B units a = (rg, a')"
        by (cases "get_loop rt B units a")
      from register_added [OF wu al [unfolded None] gl] reg
      have "this' = this\<lparr>kAjv := a', intercepted := i\<rparr>" by simp
      then have k: "kAjv this' = a'" by simp
      from add_loop_None [OF al [unfolded None]] have a:
        "calls a = map (\<lambda>u. AddSchema (unitKey rt u)) units"
        "schemas a = map (\<lambda>u. (unitKey rt u, u)) units"
        by (simp_all add: newAjv_def)
      from get_loop_result [OF gl] obtain m where m: "m \<le> length units"
        "calls a' = calls a @ map (\<lambda>u. GetSchema (unitKey rt u)) (take m units)"
        "schemas a' = schemas a"
        by blast
      have "length units \<le> length units \<and> m \<le> length units \<and>
               calls (kAjv this') =
                 map (\<lambda>u. AddSchema (unitKey rt u)) (take (length units) units) @
                 map (\<lambda>u. GetSchema (unitKey rt u)) (take m units) \<and>
               (0 < m \<longrightarrow> length units = length units \<and>
                  schemas (kAjv this') = map (\<lambda>u. (unitKey rt u, u)) units)"
        using m a k by simp
      then show ?thesis by blast
    qed
    then obtain n m where nm:
      "calls (kAjv this') =
         map (\<lambda>u. AddSchema (unitKey rt u)) (take n units) @
         map (\<lambda>u. GetSchema (unitKey rt u)) (take m units)"
      by blast
    have ord: "\<forall>p q k k'. p < length (calls (kAjv this')) \<and> q < length (calls (kAjv this')) \<and>
            calls (kAjv this') ! p = GetSchema k \<and> calls (kAjv this') ! q = AddSchema k'
            \<longrightarrow> q < p"
      using adds_before_gets [OF nm] by blast
    from wu have a1: "\<forall>e i. types_loop rt infer vs schema [] (intercepted this) = (Inl e, i) \<longrightarrow>
            calls (kAjv this') = []"
      by simp
    from wu ex have a2: "\<forall>units i. types_loop rt infer vs schema [] (intercepted this) = (Inr units, i) \<longrightarrow>
            (\<exists>n m. n \<le> length units \<and> m \<le> length units \<and>
               calls (kAjv this') =
                 map (\<lambda>u. AddSchema (unitKey rt u)) (take n units) @
                 map (\<lambda>u. GetSchema (unitKey rt u)) (take m units) \<and>
               (0 < m \<longrightarrow> n = length units \<and>
                  schemas (kAjv this') = map (\<lambda>u. (unitKey rt u, u)) units))"
      by simp
    from a1 a2 ord show ?thesis by (intro conjI)
  qed
qed

theorem registration_precedes_compilation_witness:
  "registerValidationSchema nodeBuiltins refBackend inferJSONSchemaType goodSchema sampleOverrides
     freshValidator = (None, snd goodPass) \<and>
   length (calls (kAjv (snd goodPass))) = 8 \<and>
   calls (kAjv (snd goodPass)) ! 4 = GetSchema (JStr (field_id ''Query'' ''message'')) \<and>
   calls (kAjv (snd goodPass)) ! 3 = AddSchema (JStr (type_id ''Nested'')) \<and>
   (3::nat) < 4"
proof -
  have h: "registerValidationSchema nodeBuiltins refBackend inferJSONSchemaType goodSchema sampleOverrides
     freshValidator = (None, snd goodPass)"
    by code_simp
  have c1: "length (calls (kAjv (snd goodPass))) = 8"
    by code_simp
  have c2: "calls (kAjv (snd goodPass)) ! 4 = GetSchema (JStr (field_id ''Query'' ''message''))"
    by code_simp
  have c3: "calls (kAjv (snd goodPass)) ! 3 = AddSchema (JStr (type_id ''Nested''))"
    by code_simp
  note t = registration_precedes_compilation [OF h, THEN conjunct2, THEN conjunct2, rule_format,
             of 4 3 "JStr (field_id ''Query'' ''message'')" "JStr (type_id ''Nested'')"]
  have "(3::nat) < 4"
    by (rule t) (simp add: c1 c2 c3)
  with h c1 c2 c3 show ?thesis by (intro conjI)
qed

text \<open>
  C2, as the code has it. A pass starts by replacing the installed backend instance
  with a fresh one, so its outcome and the instance it leaves installed do not depend
  on what was installed before; when the walk throws, the installed instance is the
  empty one.
\<close>

theorem pass_ignores_installed_registry:
  "fst (registerValidationSchema rt B infer schema vs this) =
     fst (registerValidationSchema rt B infer schema vs this0) \<and>
   kAjv (snd (registerValidationSchema rt B infer schema vs this)) =
     kAjv (snd (registerValidationSchema rt B infer schema vs this0)) \<and>
   (\<forall>e i. types_loop rt infer vs schema [] (intercepted this) = (Inl e, i) \<longrightarrow>
      registerValidationSchema rt B infer schema vs this =
        (Some e, this\<lparr>kAjv := newAjv, intercepted := i\<rparr>))"
  using register_kAjv_indep [of rt B infer schema vs this this0]
    register_walk_fails [of rt infer vs schema this _ _ B]
  by (intro conjI allI impI) simp_all

theorem pass_ignores_installed_registry_witness:
  "types_loop nodeBuiltins inferJSONSchemaType sampleOverrides badSchema [] (intercepted (snd goodPass)) =
     (Inl (MER_VALIDATION_ERR_FIELD_TYPE_UNDEFINED (JStr (field_id ''Filters'' ''text''))),
      intercepted (snd goodPass) @ [(''Query'', ''message''), (''Query'', ''search'')]) \<and>
   badPass =
     (Some (MER_VALIDATION_ERR_FIELD_TYPE_UNDEFINED (JStr (field_id ''Filters'' ''text''))),
      (snd goodPass)\<lparr>kAjv := newAjv,
        intercepted := intercepted (snd goodPass) @ [(''Query'', ''message''), (''Query'', ''search'')]\<rparr>) \<and>
   kAjv (snd badPass) =
     kAjv (snd (registerValidationSchema nodeBuiltins refBackend inferJSONSchemaType badSchema sampleOverrides
                  freshValidator))"
proof -
  have h: "types_loop nodeBuiltins inferJSONSchemaType sampleOverrides badSchema [] (intercepted (snd goodPass)) =
     (Inl (MER_VALIDATION_ERR_FIELD_TYPE_UNDEFINED (JStr (field_id ''Filters'' ''text''))),
      intercepted (snd goodPass) @ [(''Query'', ''message''), (''Query'', ''search'')])"
    by code_simp
  note t = pass_ignores_installed_registry [of nodeBuiltins refBackend inferJSONSchemaType badSchema
             sampleOverrides "snd goodPass" freshValidator]
  note t3 = t [THEN conjunct2, THEN conjunct2, rule_format, OF h]
  note t2 = t [THEN conjunct2, THEN conjunct1]
  show ?thesis
    unfolding badPass_def
    using h t3 t2 by (intro conjI)
qed

text \<open>
  C2, as the spec words it, fails: after a successful pass over the sample graph, a
  pass over the replacement graph throws the field-type-undefined error for
  \<open>Filters.text\<close> and leaves an empty backend instance; the unit of \<open>Filters\<close> and
  the compiled validator of \<open>Query.message\<close> of the first pass are gone.
\<close>

theorem failed_pass_counterexample:
  "fst goodPass = None \<and>
   map_of (schemas (kAjv (snd goodPass))) (JStr (type_id ''Filters'')) \<noteq> None \<and>
   JStr (field_id ''Query'' ''message'') \<in> set (compiled (kAjv (snd goodPass))) \<and>
   fst badPass = Some (MER_VALIDATION_ERR_FIELD_TYPE_UNDEFINED (JStr (field_id ''Filters'' ''text''))) \<and>
   schemas (kAjv (snd badPass)) = [] \<and>
   compiled (kAjv (snd badPass)) = [] \<and>
   map_of (schemas (kAjv (snd badPass))) (JStr (type_id ''Filters'')) = None"
  by code_simp

section \<open>Reference ids are injective on slash-free names\<close>

lemma slash_split:
  "slashFree t \<Longrightarrow> slashFree t' \<Longrightarrow> t @ CHR ''/'' # r = t' @ CHR ''/'' # r' \<Longrightarrow>
   t = t' \<and> r = r'"
proof (induction t arbitrary: t')
  case Nil
  then show ?case by (cases t') (auto simp: slashFree_def)
next
  case (Cons c t)
  then show ?case by (cases t') (auto simp: slashFree_def)
qed

lemma field_id_inject:
  "slashFree t \<Longrightarrow> slashFree t' \<Longrightarrow> field_id t f = field_id t' f' \<Longrightarrow> t = t' \<and> f = f'"
  using slash_split [of t t' f f'] by (simp add: field_id_def)

lemma argument_id_inject:
  assumes "slashFree t" "slashFree t'" "slashFree f" "slashFree f'"
    and "argument_id t f a = argument_id t' f' a'"
  shows "t = t' \<and> f = f' \<and> a = a'"
proof -
  from assms(5) have "t @ CHR ''/'' # (f @ CHR ''/'' # a) = t' @ CHR ''/'' # (f' @ CHR ''/'' # a')"
    by (simp add: argument_id_def)
  from slash_split [OF assms(1,2) this] have "t = t'" "f @ CHR ''/'' # a = f' @ CHR ''/'' # a'"
    by simp_all
  with slash_split [OF assms(3,4)] show ?thesis by simp
qed

lemma field_id_argument_id:
  assumes "slashFree t" "slashFree t'" "slashFree f"
  shows "field_id t f \<noteq> argument_id t' f' a'"
proof
  assume "field_id t f = argument_id t' f' a'"
  then have "t @ CHR ''/'' # f = t' @ CHR ''/'' # (f' @ CHR ''/'' # a')"
    by (simp add: field_id_def argument_id_def)
  from slash_split [OF assms(1,2) this] have "f = f' @ CHR ''/'' # a'" by simp
  with assms(3) show False by (simp add: slashFree_def)
qed

lemma type_id_inject: "type_id t = type_id t' \<Longrightarrow> t = t'"
  by (simp add: type_id_def)

lemma referenceId_inject:
  assumes v: "validName n" and v': "validName n'" and e: "referenceId n = referenceId n'"
  shows "n = n'"
proof (cases n)
  case (TypeUnit t)
  note n = this
  show ?thesis
  proof (cases n')
    case (TypeUnit t')
    with n e show ?thesis by (simp add: type_id_def)
  next
    case (FieldUnit t' f')
    with n e v have False using type_id_field_id [of t t' f'] by simp
    then show ?thesis ..
  next
    case (ArgumentUnit t' f' a')
    with n e v have False using type_id_argument_id [of t t' f' a'] by simp
    then show ?thesis ..
  qed
next
  case (FieldUnit t f)
  note n = this
  show ?thesis
  proof (cases n')
    case (TypeUnit t')
    with n e v' have False using type_id_field_id [of t' t f] by simp
    then show ?thesis ..
  next
    case (FieldUnit t' f')
    with n e v v' show ?thesis using field_id_inject [of t t' f f'] by simp
  next
    case (ArgumentUnit t' f' a')
    with n e v v' have False using field_id_argument_id [of t t' f f' a'] by simp
    then show ?thesis ..
  qed
next
  case (ArgumentUnit t f a)
  note n = this
  show ?thesis
  proof (cases n')
    case (TypeUnit t')
    with n e v' have False using type_id_argument_id [of t' t f a] by simp
    then show ?thesis ..
  next
    case (FieldUnit t' f')
    with n e v v' have False using field_id_argument_id [of t' t f' f a] by simp
    then show ?thesis ..
  next
    case (ArgumentUnit t' f' a')
    with n e v v' show ?thesis using argument_id_inject [of t t' f f' a a'] by simp
  qed
qed

section \<open>The units of a completed pass\<close>

lemma setProperty_other:
  "k \<noteq> ''properties'' \<Longrightarrow> map_of (setProperty rt tvs f s) k = map_of tvs k"
  by (simp add: setProperty_def update_conv')

lemma setProperty_properties:
  "map_of tvs ''properties'' = Some p \<Longrightarrow>
   map_of (setProperty rt tvs f s) ''properties'' = Some (JObj (AList.update f s (ownProps p)))"
  by (simp add: setProperty_def update_conv' jsGet_JObj)

lemma addFieldProperty_other:
  "k \<noteq> ''properties'' \<Longrightarrow> map_of (addFieldProperty rt infer T kd tv e tvs) k = map_of tvs k"
  by (simp add: addFieldProperty_def setProperty_other split: sum.splits option.splits)

lemma fold_addFieldProperty_other:
  "k \<noteq> ''properties'' \<Longrightarrow>
   map_of (fold (addFieldProperty rt infer T kd tv) fs tvs) k = map_of tvs k"
  by (induction fs arbitrary: tvs) (simp_all add: addFieldProperty_other)

lemma typeSchemaStart_built:
  "map_of (typeSchemaStart rt T kd tv) ''$id'' = Some (JStr (type_id T))"
  "map_of (typeSchemaStart rt T kd tv) ''type'' = Some (JStr ''object'')"
  "map_of (typeSchemaStart rt T kd tv) ''nullable'' = Some (JBool True)"
  "map_of (typeSchemaStart rt T kd tv) ''properties'' = Some (JObj [])"
  by (simp_all add: typeSchemaStart_def initialTypeSchema_def map_of_assign map_add_def
        split: option.splits)

lemma typeLevelUnit_built:
  "getProp (typeLevelUnit rt infer vs e) ''$id'' = JStr (type_id (fst e))"
  "getProp (typeLevelUnit rt infer vs e) ''type'' = JStr ''object''"
  "getProp (typeLevelUnit rt infer vs e) ''nullable'' = JBool True"
  by (simp_all add: typeLevelUnit_def getProp_JObj fold_addFieldProperty_other
        typeSchemaStart_built)

lemma unitKey_fieldArguments:
  "unitKey rt (fieldArgumentsValidationSchema rt infer T f args fv) = JStr (field_id T f)"
  by (simp add: unitKey_def fieldArgumentsValidationSchema_def jsGet_JObj)

lemma unitKey_typeLevelUnit:
  "unitKey rt (typeLevelUnit rt infer vs e) = JStr (type_id (fst e))"
  by (simp add: unitKey_def typeLevelUnit_def jsGet_JObj fold_addFieldProperty_other
        typeSchemaStart_built)

lemma typeUnits_keys:
  "map (unitKey rt) (typeUnits rt infer vs e) = map (\<lambda>n. JStr (referenceId n)) (typeUnitNames e)"
  by (simp add: typeUnits_def typeUnitNames_def fieldArgumentUnits_def unitKey_fieldArguments
        unitKey_typeLevelUnit)

lemma walkUnits_keys:
  "map (unitKey rt) (walkUnits rt infer vs schema) =
     map (\<lambda>n. JStr (referenceId n)) (walkUnitNames schema)"
  by (induction schema) (simp_all add: walkUnits_def walkUnitNames_def typeUnits_keys)

lemma register_ok:
  assumes "registerValidationSchema rt B infer schema vs this = (None, this')"
  shows "schemas (kAjv this') = map (\<lambda>u. (unitKey rt u, u)) (walkUnits rt infer vs schema)"
    and "intercepted this' = intercepted this @ walkMarks schema"
    and "types_loop rt infer vs schema [] (intercepted this) =
           (Inr (walkUnits rt infer vs schema), intercepted this @ walkMarks schema)"
proof -
  obtain w i where w: "types_loop rt infer vs schema [] (intercepted this) = (w, i)"
    by (cases "types_loop rt infer vs schema [] (intercepted this)")
  have "\<exists>us. w = Inr us"
  proof (cases w)
    case (Inl e)
    from register_walk_fails [OF w [unfolded Inl], of B] assms show ?thesis by simp
  qed simp
  then obtain us where us: "w = Inr us" ..
  note wu = w [unfolded us]
  from types_loop_Inr [OF wu] have u: "us = walkUnits rt infer vs schema"
    and i: "i = intercepted this @ walkMarks schema"
    by simp_all
  obtain ra a where al: "add_loop rt B us newAjv = (ra, a)"
    by (cases "add_loop rt B us newAjv")
  have ra: "ra = None"
  proof (cases ra)
    case (Some e)
    from register_add_fails [OF wu al [unfolded Some]] assms show ?thesis by simp
  qed simp
  obtain rg a' where gl: "get_loop rt B us a = (rg, a')"
    by (cases "get_loop rt B us a")
  from register_added [OF wu al [unfolded ra] gl] assms
  have t: "this' = this\<lparr>kAjv := a', intercepted := i\<rparr>" by simp
  from add_loop_None [OF al [unfolded ra]] have "schemas a = map (\<lambda>u. (unitKey rt u, u)) us"
    by (simp add: newAjv_def)
  moreover from get_loop_result [OF gl] have "schemas a' = schemas a" by blast
  ultimately show "schemas (kAjv this') = map (\<lambda>u. (unitKey rt u, u)) (walkUnits rt infer vs schema)"
    using t u by simp
  from t i show "intercepted this' = intercepted this @ walkMarks schema" by simp
  from wu u i show "types_loop rt infer vs schema [] (intercepted this) =
           (Inr (walkUnits rt infer vs schema), intercepted this @ walkMarks schema)"
    by simp
qed

lemma fields_loop_marks:
  "fields_loop rt infer T k tv fs acc i = (r, i') \<Longrightarrow>
   set i' \<subseteq> set i \<union> (\<lambda>f. (T, fst f)) ` set (argumentFields fs)"
proof (induction fs arbitrary: acc i)
  case Nil
  then show ?case by simp
next
  case (Cons e fs)
  obtain f fld where e: "e = (f, fld)" by (cases e)
  obtain tvs regs where acc: "acc = (tvs, regs)" by (cases acc)
  show ?case
  proof (cases "hasArguments fld")
    case True
    with Cons.prems e acc obtain acc' where
      "fields_loop rt infer T k tv fs acc' (i @ [(T, f)]) = (r, i')"
      by (auto simp: kBuildArgumentsSchema_hasArguments)
    from Cons.IH [OF this] True e show ?thesis
      by (auto simp: argumentFields_def)
  next
    case False
    with Cons.prems e acc have
      "i' = i \<or> (\<exists>acc'. fields_loop rt infer T k tv fs acc' i = (r, i'))"
      by (auto simp: Let_def split: if_splits sum.splits option.splits)
    then show ?thesis
    proof
      assume "i' = i"
      then show ?thesis by auto
    next
      assume "\<exists>acc'. fields_loop rt infer T k tv fs acc' i = (r, i')"
      then obtain acc' where "fields_loop rt infer T k tv fs acc' i = (r, i')" ..
      from Cons.IH [OF this] False e show ?thesis
        by (auto simp: argumentFields_def)
    qed
  qed
qed

lemma types_loop_marks:
  "types_loop rt infer vs schema regs i = (r, i') \<Longrightarrow> set i' \<subseteq> set i \<union> set (walkMarks schema)"
proof (induction schema arbitrary: regs i)
  case Nil
  then show ?case by simp
next
  case (Cons e schema)
  obtain T st where e: "e = (T, st)" by (cases e)
  show ?case
  proof (cases "vs = JUndefined \<or> vs = JNull")
    case True
    with Cons.prems e show ?thesis by auto
  next
    case nn: False
    show ?thesis
    proof (cases "visited e")
      case False
      with Cons.prems e nn have "types_loop rt infer vs schema regs i = (r, i')"
        by (auto simp: visited_def Let_def split: option.splits if_splits)
      from Cons.IH [OF this] show ?thesis
        by (auto simp: walkMarks_def)
    next
      case True
      then obtain fs where fs: "getFields st = Some fs" and nst: "\<not> startsWith T ''__''"
        using e by (auto simp: visited_def)
      from fs have fs_eq: "fs = st_fields st"
        by (auto simp: getFields_def split: if_splits)
      let ?tv = "orNull (jsGet rt vs T)"
      obtain w j where fl:
        "fields_loop rt infer T (st_kind st) ?tv fs
           (typeSchemaStart rt T (st_kind st) ?tv, regs) i = (w, j)"
        by (cases "fields_loop rt infer T (st_kind st) ?tv fs
                     (typeSchemaStart rt T (st_kind st) ?tv, regs) i")
      from fields_loop_marks [OF fl] True e fs_eq
      have j: "set j \<subseteq> set i \<union> set (typeMarks e)"
        by (simp add: typeMarks_def)
      show ?thesis
      proof (cases w)
        case (Inl err)
        with Cons.prems e nn fs nst fl have "i' = j" by (simp add: Let_def)
        with j show ?thesis by (auto simp: walkMarks_def)
      next
        case (Inr p)
        obtain tvs rs where p: "p = (tvs, rs)" by (cases p)
        from Cons.prems e nn fs nst fl Inr p obtain regs' where
          "types_loop rt infer vs schema regs' j = (r, i')"
          by (simp add: Let_def)
        from Cons.IH [OF this] j show ?thesis
          by (auto simp: walkMarks_def)
      qed
    qed
  qed
qed

lemma walkMarks_iff:
  "(T, f) \<in> set (walkMarks schema) \<longleftrightarrow>
     (\<exists>st fld. (T, st) \<in> set schema \<and> visited (T, st) \<and>
                (f, fld) \<in> set (st_fields st) \<and> hasArguments fld)"
proof
  assume "(T, f) \<in> set (walkMarks schema)"
  then obtain e where e: "e \<in> set schema" "(T, f) \<in> set (typeMarks e)"
    by (auto simp: walkMarks_def)
  from e(2) have v: "visited e"
    by (auto simp: typeMarks_def split: if_splits)
  with e(2) obtain x where x: "x \<in> set (argumentFields (st_fields (snd e)))"
    "T = fst e" "f = fst x"
    by (auto simp: typeMarks_def)
  from x(1) have "x \<in> set (st_fields (snd e))" "hasArguments (snd x)"
    by (simp_all add: argumentFields_def)
  with e(1) v x(2,3) show "\<exists>st fld. (T, st) \<in> set schema \<and> visited (T, st) \<and>
                (f, fld) \<in> set (st_fields st) \<and> hasArguments fld"
    by (intro exI [of _ "snd e"] exI [of _ "snd x"]) simp
next
  assume "\<exists>st fld. (T, st) \<in> set schema \<and> visited (T, st) \<and>
                (f, fld) \<in> set (st_fields st) \<and> hasArguments fld"
  then obtain st fld where h: "(T, st) \<in> set schema" "visited (T, st)"
    "(f, fld) \<in> set (st_fields st)" "hasArguments fld"
    by blast
  from h(3,4) have "(f, fld) \<in> set (argumentFields (st_fields st))"
    by (simp add: argumentFields_def)
  with h(2) have "(T, f) \<in> set (typeMarks (T, st))"
    by (force simp: typeMarks_def)
  with h(1) show "(T, f) \<in> set (walkMarks schema)"
    by (force simp: walkMarks_def)
qed

lemma typeUnitNames_type: "n \<in> set (typeUnitNames e) \<Longrightarrow> unitType n = fst e"
  by (auto simp: typeUnitNames_def split: if_splits)

lemma walkUnitNames_type: "n \<in> set (walkUnitNames schema) \<Longrightarrow> unitType n \<in> fst ` set schema"
  by (auto simp: walkUnitNames_def dest!: typeUnitNames_type)

lemma typeUnitNames_distinct:
  assumes "distinct (map fst (st_fields (snd e)))"
  shows "distinct (typeUnitNames e)"
proof -
  from assms have "distinct (map fst (argumentFields (st_fields (snd e))))"
    by (simp add: argumentFields_def distinct_map_filter)
  then have "distinct (map (\<lambda>f. FieldUnit (fst e) (fst f)) (argumentFields (st_fields (snd e))))"
    by (simp add: distinct_map inj_on_def)
  then show ?thesis
    by (auto simp: typeUnitNames_def)
qed

lemma typeUnitNames_valid:
  assumes "slashFree (fst e)" "\<forall>f \<in> set (st_fields (snd e)). slashFree (fst f)"
    and "n \<in> set (typeUnitNames e)"
  shows "validName n"
  using assms by (auto simp: typeUnitNames_def argumentFields_def split: if_splits)

lemma walkUnitNames_distinct: "wellNamed schema \<Longrightarrow> distinct (walkUnitNames schema)"
proof (induction schema)
  case Nil
  then show ?case by (simp add: walkUnitNames_def)
next
  case (Cons e schema)
  from Cons.prems have w: "wellNamed schema" and d: "distinct (map fst (st_fields (snd e)))"
    and ne: "fst e \<notin> fst ` set schema"
    by (auto simp: wellNamed_def)
  have "set (typeUnitNames e) \<inter> set (walkUnitNames schema) = {}"
  proof (rule ccontr)
    assume "set (typeUnitNames e) \<inter> set (walkUnitNames schema) \<noteq> {}"
    then obtain n where "n \<in> set (typeUnitNames e)" "n \<in> set (walkUnitNames schema)" by blast
    with typeUnitNames_type walkUnitNames_type have "fst e \<in> fst ` set schema" by metis
    with ne show False ..
  qed
  with Cons.IH [OF w] typeUnitNames_distinct [OF d] show ?case
    by (simp add: walkUnitNames_def)
qed

lemma walkUnitNames_valid:
  "wellNamed schema \<Longrightarrow> n \<in> set (walkUnitNames schema) \<Longrightarrow> validName n"
  by (auto simp: walkUnitNames_def wellNamed_def intro: typeUnitNames_valid)

lemma walkUnits_keys_distinct:
  assumes "wellNamed schema"
  shows "distinct (map (unitKey rt) (walkUnits rt infer vs schema))"
proof -
  have "inj_on (\<lambda>n. JStr (referenceId n)) (set (walkUnitNames schema))"
    by (rule inj_onI) (use walkUnitNames_valid [OF assms] referenceId_inject in auto)
  with walkUnitNames_distinct [OF assms] show ?thesis
    by (simp add: walkUnits_keys distinct_map)
qed

lemma unique_key:
  "distinct (map fst xs) \<Longrightarrow> (k, v) \<in> set xs \<Longrightarrow>
   length (filter (\<lambda>e. fst e = k) xs) = 1 \<and> map_of xs k = Some v"
proof (induction xs)
  case Nil
  then show ?case by simp
next
  case (Cons x xs)
  show ?case
  proof (cases "x = (k, v)")
    case True
    with Cons.prems have "k \<notin> fst ` set xs" by auto
    then have "filter (\<lambda>e. fst e = k) xs = []"
      by (auto simp: filter_empty_conv)
    with True show ?thesis by simp
  next
    case False
    with Cons.prems have in_xs: "(k, v) \<in> set xs" and d: "distinct (map fst xs)" by auto
    from Cons.prems in_xs have "fst x \<noteq> k" by (cases x) force
    with Cons.IH [OF d in_xs] show ?thesis by (cases x) auto
  qed
qed

lemma registered_unit:
  assumes ok: "registerValidationSchema rt B infer schema vs this = (None, this')"
    and wn: "wellNamed schema"
    and u: "u \<in> set (walkUnits rt infer vs schema)"
  shows "length (filter (\<lambda>e. fst e = unitKey rt u) (schemas (kAjv this'))) = 1 \<and>
         map_of (schemas (kAjv this')) (unitKey rt u) = Some u"
proof -
  from register_ok(1) [OF ok]
  have s: "schemas (kAjv this') = map (\<lambda>u. (unitKey rt u, u)) (walkUnits rt infer vs schema)" .
  have "map fst (map (\<lambda>u. (unitKey rt u, u)) (walkUnits rt infer vs schema)) =
          map (unitKey rt) (walkUnits rt infer vs schema)"
    by (simp add: comp_def)
  with walkUnits_keys_distinct [OF wn, of rt infer vs] s
  have d: "distinct (map fst (schemas (kAjv this')))" by (simp add: comp_def)
  from u s have "(unitKey rt u, u) \<in> set (schemas (kAjv this'))" by auto
  from unique_key [OF d this] show ?thesis .
qed

lemma argument_unit_in_walk:
  assumes "(T, st) \<in> set schema" "visited (T, st)"
    and "(f, fld) \<in> set (st_fields st)" "hasArguments fld"
  shows "fieldArgumentsValidationSchema rt infer T f (declaredArgs fld)
           (overrideFor rt (orNull (jsGet rt vs T)) f) \<in> set (walkUnits rt infer vs schema)"
proof -
  from assms(3,4) have "(f, fld) \<in> set (argumentFields (st_fields st))"
    by (simp add: argumentFields_def)
  then have "fieldArgumentsValidationSchema rt infer T f (declaredArgs fld)
           (overrideFor rt (orNull (jsGet rt vs T)) f)
         \<in> set (fieldArgumentUnits rt infer T (orNull (jsGet rt vs T)) (st_fields st))"
    by (force simp: fieldArgumentUnits_def)
  with assms(2) have "fieldArgumentsValidationSchema rt infer T f (declaredArgs fld)
           (overrideFor rt (orNull (jsGet rt vs T)) f) \<in> set (typeUnits rt infer vs (T, st))"
    by (simp add: typeUnits_def)
  with assms(1) show ?thesis by (force simp: walkUnits_def)
qed

lemma type_unit_in_walk:
  assumes "(T, st) \<in> set schema" "visited (T, st)" "isInputObjectType (st_kind st)"
  shows "typeLevelUnit rt infer vs (T, st) \<in> set (walkUnits rt infer vs schema)"
proof -
  from assms(2,3) have "typeLevelUnit rt infer vs (T, st) \<in> set (typeUnits rt infer vs (T, st))"
    by (simp add: typeUnits_def)
  with assms(1) show ?thesis by (force simp: walkUnits_def)
qed

section \<open>The argument object of a field\<close>

lemma arguments_loop_fold:
  "arguments_loop rt infer T f fv args ps =
     fold (\<lambda>(k, v). AList.update k v)
       (map (\<lambda>a. (arg_name a, argumentValidationSchema rt infer T f fv a)) args) ps"
  by (induction args arbitrary: ps) simp_all

lemma arguments_loop_distinct:
  "distinct (map arg_name args) \<Longrightarrow>
   map_of (arguments_loop rt infer T f fv args ps) =
     map_of ps ++ map_of (map (\<lambda>a. (arg_name a, argumentValidationSchema rt infer T f fv a)) args)"
  by (simp add: arguments_loop_fold fold_update_distinct comp_def)

lemma arguments_loop_keys:
  "fst ` set (arguments_loop rt infer T f fv args ps) = fst ` set ps \<union> arg_name ` set args"
proof (induction args arbitrary: ps)
  case Nil
  then show ?case by simp
next
  case (Cons a args)
  have "fst ` set (AList.update (arg_name a) (argumentValidationSchema rt infer T f fv a) ps) =
          insert (arg_name a) (fst ` set ps)"
    using dom_update [of "arg_name a" "argumentValidationSchema rt infer T f fv a" ps]
    by (simp add: dom_map_of_conv_image_fst)
  with Cons.IH show ?case by auto
qed

lemma argumentValidationSchema_id:
  "getProp (argumentValidationSchema rt infer T f fv a) ''$id'' = JStr (argument_id T f (arg_name a))"
  by (simp add: argumentValidationSchema_def Let_def kValidationSchema_id split: prod.splits)

lemma arguments_loop_ids:
  assumes "\<And>k v. map_of ps k = Some v \<Longrightarrow> getProp v ''$id'' = JStr (argument_id T f k)"
    and "map_of (arguments_loop rt infer T f fv args ps) k = Some v"
  shows "getProp v ''$id'' = JStr (argument_id T f k)"
  using assms
proof (induction args arbitrary: ps)
  case Nil
  then show ?case by simp
next
  case (Cons a args)
  have "\<And>k v. map_of (AList.update (arg_name a) (argumentValidationSchema rt infer T f fv a) ps) k
                   = Some v \<Longrightarrow> getProp v ''$id'' = JStr (argument_id T f k)"
    using Cons.prems(1) by (auto simp: update_conv' argumentValidationSchema_id split: if_splits)
  from Cons.IH [OF this] Cons.prems(2) show ?case by simp
qed

lemma fieldArguments_properties:
  "getProp (fieldArgumentsValidationSchema rt infer T f args fv) ''properties'' =
     JObj (arguments_loop rt infer T f fv args [])"
  "getProp (fieldArgumentsValidationSchema rt infer T f args fv) ''type'' = JStr ''object''"
  "getProp (fieldArgumentsValidationSchema rt infer T f args fv) ''$id'' = JStr (field_id T f)"
  by (simp_all add: fieldArgumentsValidationSchema_def getProp_JObj)

lemma fieldArguments_property_id:
  assumes "a \<in> set args"
  shows "getProp (getProp (getProp (fieldArgumentsValidationSchema rt infer T f args fv)
           ''properties'') (arg_name a)) ''$id'' = JStr (argument_id T f (arg_name a))"
proof -
  from assms have "arg_name a \<in> fst ` set (arguments_loop rt infer T f fv args [])"
    by (simp add: arguments_loop_keys)
  then obtain v where v: "map_of (arguments_loop rt infer T f fv args []) (arg_name a) = Some v"
    by (metis map_of_eq_None_iff not_Some_eq)
  have "getProp v ''$id'' = JStr (argument_id T f (arg_name a))"
    by (rule arguments_loop_ids [OF _ v]) simp
  with v show ?thesis by (simp add: fieldArguments_properties getProp_JObj)
qed

lemma fieldArguments_property:
  assumes "distinct (map arg_name args)" "a \<in> set args"
  shows "getProp (getProp (fieldArgumentsValidationSchema rt infer T f args fv) ''properties'')
           (arg_name a) = argumentValidationSchema rt infer T f fv a"
proof -
  from assms have "map_of (map (\<lambda>a. (arg_name a, argumentValidationSchema rt infer T f fv a)) args)
                     (arg_name a) = Some (argumentValidationSchema rt infer T f fv a)"
    by (intro map_of_is_SomeI) (auto simp: comp_def)
  with assms(1) show ?thesis
    by (simp add: fieldArguments_properties getProp_JObj arguments_loop_distinct map_add_def)
qed

lemma kBuildInputTypeFieldSchema_id:
  "kBuildInputTypeFieldSchema rt infer T f fld fv = Inr (Some s) \<Longrightarrow>
   getProp s ''$id'' = JStr (field_id T f)"
  by (auto simp: kBuildInputTypeFieldSchema_def Let_def kValidationSchema_id
        split: prod.splits if_splits)

text \<open>
  C9. A second pass over the same graph and overrides, started from the state the first
  pass left, registers the same keys in the same order. The keys a completed pass
  registers are the reference ids of the unit names of the graph, whatever the
  overrides, the inference function and the backend; a synthesized fragment keeps the
  id it is tagged with under any override; the argument object of a field, each
  argument fragment in it, each input-field fragment and each type-level unit carry the
  reference id of their name. On names without a slash, as GraphQL names are, the
  reference id is injective, so distinct names have distinct ids.
\<close>

theorem reference_ids_stable_and_distinct:
  "map fst (schemas (kAjv (snd (registerValidationSchema rt B infer schema vs
        (snd (registerValidationSchema rt B infer schema vs this)))))) =
     map fst (schemas (kAjv (snd (registerValidationSchema rt B infer schema vs this)))) \<and>
   (fst (registerValidationSchema rt B infer schema vs this) = None \<longrightarrow>
      map fst (schemas (kAjv (snd (registerValidationSchema rt B infer schema vs this)))) =
        map (\<lambda>n. JStr (referenceId n)) (walkUnitNames schema)) \<and>
   getProp (kValidationSchema rt infer ty nt nn tv (referenceId n)) ''$id'' = JStr (referenceId n) \<and>
   unitKey rt (fieldArgumentsValidationSchema rt infer T f args fv) = JStr (referenceId (FieldUnit T f)) \<and>
   (\<forall>a \<in> set args.
      getProp (getProp (getProp (fieldArgumentsValidationSchema rt infer T f args fv)
        ''properties'') (arg_name a)) ''$id''
        = JStr (referenceId (ArgumentUnit T f (arg_name a)))) \<and>
   (\<forall>s. kBuildInputTypeFieldSchema rt infer T f fld fv = Inr (Some s) \<longrightarrow>
      getProp s ''$id'' = JStr (referenceId (FieldUnit T f))) \<and>
   unitKey rt (typeLevelUnit rt infer vs (T, st)) = JStr (referenceId (TypeUnit T)) \<and>
   (validName m \<and> validName m' \<and> referenceId m = referenceId m' \<longrightarrow> m = m')"
proof -
  have a: "map fst (schemas (kAjv (snd (registerValidationSchema rt B infer schema vs
        (snd (registerValidationSchema rt B infer schema vs this)))))) =
     map fst (schemas (kAjv (snd (registerValidationSchema rt B infer schema vs this))))"
    using register_kAjv_indep [of rt B infer schema vs
            "snd (registerValidationSchema rt B infer schema vs this)" this]
    by simp
  have b: "fst (registerValidationSchema rt B infer schema vs this) = None \<longrightarrow>
      map fst (schemas (kAjv (snd (registerValidationSchema rt B infer schema vs this)))) =
        map (\<lambda>n. JStr (referenceId n)) (walkUnitNames schema)"
  proof
    assume "fst (registerValidationSchema rt B infer schema vs this) = None"
    then have "registerValidationSchema rt B infer schema vs this =
                 (None, snd (registerValidationSchema rt B infer schema vs this))"
      by (metis prod.collapse)
    from register_ok(1) [OF this] walkUnits_keys [of rt infer vs schema]
    show "map fst (schemas (kAjv (snd (registerValidationSchema rt B infer schema vs this)))) =
        map (\<lambda>n. JStr (referenceId n)) (walkUnitNames schema)"
      by (simp add: comp_def)
  qed
  have c: "getProp (kValidationSchema rt infer ty nt nn tv (referenceId n)) ''$id'' = JStr (referenceId n)"
    by (rule kValidationSchema_id)
  have d: "unitKey rt (fieldArgumentsValidationSchema rt infer T f args fv) = JStr (referenceId (FieldUnit T f))"
    by (simp add: unitKey_fieldArguments)
  have e: "\<forall>a \<in> set args.
      getProp (getProp (getProp (fieldArgumentsValidationSchema rt infer T f args fv)
        ''properties'') (arg_name a)) ''$id''
        = JStr (referenceId (ArgumentUnit T f (arg_name a)))"
    by (simp add: fieldArguments_property_id)
  have g: "\<forall>s. kBuildInputTypeFieldSchema rt infer T f fld fv = Inr (Some s) \<longrightarrow>
      getProp s ''$id'' = JStr (referenceId (FieldUnit T f))"
    by (simp add: kBuildInputTypeFieldSchema_id)
  have h: "unitKey rt (typeLevelUnit rt infer vs (T, st)) = JStr (referenceId (TypeUnit T))"
    by (simp add: unitKey_typeLevelUnit)
  have i: "validName m \<and> validName m' \<and> referenceId m = referenceId m' \<longrightarrow> m = m'"
    using referenceId_inject by blast
  from a b c d e g h i show ?thesis by (intro conjI)
qed

theorem reference_ids_stable_and_distinct_witness:
  "fst goodPass = None \<and>
   map fst (schemas (kAjv (snd goodPass))) =
     [JStr (referenceId (FieldUnit ''Query'' ''message'')),
      JStr (referenceId (FieldUnit ''Query'' ''search'')),
      JStr (referenceId (TypeUnit ''Filters'')),
      JStr (referenceId (TypeUnit ''Nested''))] \<and>
   validName (TypeUnit ''Filters'') \<and> validName (FieldUnit ''Query'' ''search'') \<and>
   referenceId (TypeUnit ''Filters'') \<noteq> referenceId (FieldUnit ''Query'' ''search'')"
proof -
  have h: "fst (registerValidationSchema nodeBuiltins refBackend inferJSONSchemaType goodSchema sampleOverrides
             freshValidator) = None"
    by code_simp
  have n: "walkUnitNames goodSchema =
     [FieldUnit ''Query'' ''message'', FieldUnit ''Query'' ''search'',
      TypeUnit ''Filters'', TypeUnit ''Nested'']"
    by code_simp
  have v: "validName (TypeUnit ''Filters'')" "validName (FieldUnit ''Query'' ''search'')"
    by (simp_all add: slashFree_def)
  note t = reference_ids_stable_and_distinct [of nodeBuiltins refBackend inferJSONSchemaType goodSchema
             sampleOverrides freshValidator _ _ _ _ _ _ _ _ _ _ _ "TypeUnit ''Filters''"
             "FieldUnit ''Query'' ''search''"]
  from t [THEN conjunct2, THEN conjunct1, rule_format, OF h] n
  have k: "map fst (schemas (kAjv (snd goodPass))) =
     [JStr (referenceId (FieldUnit ''Query'' ''message'')),
      JStr (referenceId (FieldUnit ''Query'' ''search'')),
      JStr (referenceId (TypeUnit ''Filters'')),
      JStr (referenceId (TypeUnit ''Nested''))]"
    by (simp add: goodPass_def)
  have "referenceId (TypeUnit ''Filters'') \<noteq> referenceId (FieldUnit ''Query'' ''search'')"
  proof
    assume e: "referenceId (TypeUnit ''Filters'') = referenceId (FieldUnit ''Query'' ''search'')"
    from t [THEN conjunct2, THEN conjunct2, THEN conjunct2, THEN conjunct2, THEN conjunct2,
            THEN conjunct2, THEN conjunct2, rule_format] v e
    have "TypeUnit ''Filters'' = FieldUnit ''Query'' ''search''" by blast
    then show False by simp
  qed
  with h k v show ?thesis by (simp add: goodPass_def)
qed

text \<open>
  C6. The code departs from the claim: the argument builder stores the fragment of every
  argument. The enum argument \<open>kind\<close> of \<open>Query.search\<close> has no inferred shape and
  no override, yet the argument object built for the field, and registered by the pass
  over the sample graph, has the property \<open>kind\<close>, holding the fragment with only
  its reference id. The sibling builder for input fields returns \<open>null\<close> for the
  same enum position, and the type-level unit of \<open>Filters\<close> has no property
  \<open>kind\<close>.
\<close>

theorem untyped_argument_stored:
  "inferJSONSchemaType Kind_t False = JObj [] \<and>
   overrideFor nodeBuiltins
     (overrideFor nodeBuiltins (orNull (jsGet nodeBuiltins sampleOverrides ''Query'')) ''search'')
     ''kind'' = None \<and>
   kBuildArgumentsSchema nodeBuiltins inferJSONSchemaType ''Query'' ''search'' search_field None [] =
     (Inr (JObj
        [(''$id'', JStr ''https://mercurius.dev/validation/Query/search''),
         (''type'', JStr ''object''),
         (''properties'',
          JObj
           [(''filters'',
             JObj
              [(''$id'', JStr ''https://mercurius.dev/validation/Query/search/filters''),
               (''type'', JStr ''object''),
               (''$ref'', JStr ''https://mercurius.dev/validation/Filters''),
               (''nullable'', JBool True)]),
            (''kind'',
             JObj [(''$id'', JStr ''https://mercurius.dev/validation/Query/search/kind'')])])]),
      [(''Query'', ''search'')]) \<and>
   fst goodPass = None \<and>
   getProp
     (getProp
        (case map_of (schemas (kAjv (snd goodPass)))
                (JStr ''https://mercurius.dev/validation/Query/search'') of
           None \<Rightarrow> JUndefined
         | Some u \<Rightarrow> u)
        ''properties'')
     ''kind'' = JObj [(''$id'', JStr ''https://mercurius.dev/validation/Query/search/kind'')] \<and>
   kBuildInputTypeFieldSchema nodeBuiltins inferJSONSchemaType ''Filters'' ''kind''
     \<lparr>field_type = NamedT Kind_t, field_args = None\<rparr> None = Inr None \<and>
   getProp
     (getProp
        (case map_of (schemas (kAjv (snd goodPass)))
                (JStr ''https://mercurius.dev/validation/Filters'') of
           None \<Rightarrow> JNull
         | Some u \<Rightarrow> u)
        ''properties'')
     ''kind'' = JUndefined \<and>
   map fst (ownProps
     (getProp
        (case map_of (schemas (kAjv (snd goodPass)))
                (JStr ''https://mercurius.dev/validation/Filters'') of
           None \<Rightarrow> JNull
         | Some u \<Rightarrow> u)
        ''properties'')) = [''text'', ''nested'', ''tags'']"
  by code_simp


text \<open>
  C7. Whatever the outcome of a pass, the fields it newly marks for interception are
  fields with at least one argument on a visited type, so a field with zero arguments is
  never marked. When the pass completes on a graph with slash-free names that occur
  once, every field with at least one argument on a visited (non-introspection) type has
  exactly one unit registered under its field-scoped reference id
  \<open>https://mercurius.dev/validation/<TypeName>/<fieldName>\<close>. That unit has the keys
  \<open>$id\<close>, \<open>type\<close> and \<open>properties\<close>: its \<open>$id\<close> is the reference id, its
  type is \<open>object\<close>, the keys of its property set are the argument names, and the
  property of each argument is the fragment \<open>kValidationSchema\<close> synthesizes from the
  argument's typed position, the argument's override (if any) and the argument-scoped
  reference id. The field is marked. All of this holds for any overrides.
\<close>

theorem argument_fields_registered_and_intercepted:
  assumes reg: "registerValidationSchema rt B infer schema vs this = (r, this')"
  shows "(\<forall>T f. (T, f) \<in> set (intercepted this') - set (intercepted this) \<longrightarrow>
            (\<exists>st fld. (T, st) \<in> set schema \<and> visited (T, st) \<and>
                       (f, fld) \<in> set (st_fields st) \<and> hasArguments fld)) \<and>
         (r = None \<and> wellNamed schema \<longrightarrow>
            (\<forall>T st f fld args.
               (T, st) \<in> set schema \<and> visited (T, st) \<and> (f, fld) \<in> set (st_fields st) \<and>
               field_args fld = Some args \<and> args \<noteq> [] \<longrightarrow>
               length (filter (\<lambda>e. fst e = JStr (field_id T f)) (schemas (kAjv this'))) = 1 \<and>
               map_of (schemas (kAjv this')) (JStr (field_id T f)) =
                 Some (fieldArgumentsValidationSchema rt infer T f args
                         (overrideFor rt (orNull (jsGet rt vs T)) f)) \<and>
               map fst (ownProps (fieldArgumentsValidationSchema rt infer T f args
                          (overrideFor rt (orNull (jsGet rt vs T)) f)))
                 = [''$id'', ''type'', ''properties''] \<and>
               getProp (fieldArgumentsValidationSchema rt infer T f args
                          (overrideFor rt (orNull (jsGet rt vs T)) f)) ''$id''
                 = JStr (''https://mercurius.dev/validation/'' @ T @ ''/'' @ f) \<and>
               getProp (fieldArgumentsValidationSchema rt infer T f args
                          (overrideFor rt (orNull (jsGet rt vs T)) f)) ''type'' = JStr ''object'' \<and>
               fst ` set (ownProps (getProp (fieldArgumentsValidationSchema rt infer T f args
                          (overrideFor rt (orNull (jsGet rt vs T)) f)) ''properties''))
                 = arg_name ` set args \<and>
               (distinct (map arg_name args) \<longrightarrow>
                  (\<forall>a \<in> set args. \<forall>ty nt nn.
                     getTypeInfo (arg_type a) = (ty, nt, nn) \<longrightarrow>
                     getProp (getProp (fieldArgumentsValidationSchema rt infer T f args
                          (overrideFor rt (orNull (jsGet rt vs T)) f)) ''properties'') (arg_name a)
                       = kValidationSchema rt infer ty nt nn
                           (overrideFor rt (overrideFor rt (orNull (jsGet rt vs T)) f) (arg_name a))
                           (argument_id T f (arg_name a)))) \<and>
               (T, f) \<in> set (intercepted this')))"
proof (intro conjI allI impI)
  fix T f
  assume m: "(T, f) \<in> set (intercepted this') - set (intercepted this)"
  obtain w i where w: "types_loop rt infer vs schema [] (intercepted this) = (w, i)"
    by (cases "types_loop rt infer vs schema [] (intercepted this)")
  have "intercepted this' = i"
  proof (cases w)
    case (Inl e)
    from register_walk_fails [OF w [unfolded Inl], of B] reg show ?thesis by simp
  next
    case (Inr us)
    note wu = w [unfolded Inr]
    obtain ra a where al: "add_loop rt B us newAjv = (ra, a)"
      by (cases "add_loop rt B us newAjv")
    show ?thesis
    proof (cases ra)
      case (Some e)
      from register_add_fails [OF wu al [unfolded Some]] reg show ?thesis by simp
    next
      case None
      obtain rg a' where gl: "get_loop rt B us a = (rg, a')"
        by (cases "get_loop rt B us a")
      from register_added [OF wu al [unfolded None] gl] reg show ?thesis by simp
    qed
  qed
  with types_loop_marks [OF w] m have "(T, f) \<in> set (walkMarks schema)" by auto
  then show "\<exists>st fld. (T, st) \<in> set schema \<and> visited (T, st) \<and>
                       (f, fld) \<in> set (st_fields st) \<and> hasArguments fld"
    by (simp add: walkMarks_iff)
next
  fix T st f fld args
  assume ok: "r = None \<and> wellNamed schema"
    and h: "(T, st) \<in> set schema \<and> visited (T, st) \<and> (f, fld) \<in> set (st_fields st) \<and>
            field_args fld = Some args \<and> args \<noteq> []"
  let ?u = "fieldArgumentsValidationSchema rt infer T f args (overrideFor rt (orNull (jsGet rt vs T)) f)"
  from h have ha: "hasArguments fld" and da: "declaredArgs fld = args"
    by (simp_all add: hasArguments_def declaredArgs_def)
  from reg ok have reg': "registerValidationSchema rt B infer schema vs this = (None, this')"
    by simp
  from argument_unit_in_walk [of T st schema f fld rt infer vs] h ha da
  have u: "?u \<in> set (walkUnits rt infer vs schema)" by simp
  from registered_unit [OF reg' _ u] ok
  have ru: "length (filter (\<lambda>e. fst e = unitKey rt ?u) (schemas (kAjv this'))) = 1 \<and>
            map_of (schemas (kAjv this')) (unitKey rt ?u) = Some ?u"
    by simp
  then show "length (filter (\<lambda>e. fst e = JStr (field_id T f)) (schemas (kAjv this'))) = 1"
    by (simp add: unitKey_fieldArguments)
  from ru show "map_of (schemas (kAjv this')) (JStr (field_id T f)) = Some ?u"
    by (simp add: unitKey_fieldArguments)
  show "map fst (ownProps ?u) = [''$id'', ''type'', ''properties'']"
    by (simp add: fieldArgumentsValidationSchema_def)
  show "getProp ?u ''$id'' = JStr (''https://mercurius.dev/validation/'' @ T @ ''/'' @ f)"
    by (simp add: fieldArgumentsValidationSchema_def getProp_JObj field_id_def
          validation_base_def)
  show "getProp ?u ''type'' = JStr ''object''"
    by (simp add: fieldArgumentsValidationSchema_def getProp_JObj)
  show "fst ` set (ownProps (getProp ?u ''properties'')) = arg_name ` set args"
    by (simp add: fieldArguments_properties arguments_loop_keys)
  from h ha have "(T, f) \<in> set (walkMarks schema)"
    by (auto simp: walkMarks_iff)
  with register_ok(2) [OF reg'] show "(T, f) \<in> set (intercepted this')" by simp
next
  fix T f and args :: "argument list"
  assume d: "distinct (map arg_name args)"
  show "\<forall>a \<in> set args. \<forall>ty nt nn.
          getTypeInfo (arg_type a) = (ty, nt, nn) \<longrightarrow>
          getProp (getProp (fieldArgumentsValidationSchema rt infer T f args
                     (overrideFor rt (orNull (jsGet rt vs T)) f)) ''properties'') (arg_name a)
            = kValidationSchema rt infer ty nt nn
                (overrideFor rt (overrideFor rt (orNull (jsGet rt vs T)) f) (arg_name a))
                (argument_id T f (arg_name a))"
  proof (intro ballI allI impI)
    fix a :: argument and ty nt nn
    assume a: "a \<in> set args" and g: "getTypeInfo (arg_type a) = (ty, nt, nn)"
    from g have "argumentValidationSchema rt infer T f (overrideFor rt (orNull (jsGet rt vs T)) f) a
                   = kValidationSchema rt infer ty nt nn
                       (overrideFor rt (overrideFor rt (orNull (jsGet rt vs T)) f) (arg_name a))
                       (argument_id T f (arg_name a))"
      by (simp add: argumentValidationSchema_def)
    with fieldArguments_property [OF d a, of rt infer T f "overrideFor rt (orNull (jsGet rt vs T)) f"]
    show "getProp (getProp (fieldArgumentsValidationSchema rt infer T f args
                     (overrideFor rt (orNull (jsGet rt vs T)) f)) ''properties'') (arg_name a)
            = kValidationSchema rt infer ty nt nn
                (overrideFor rt (overrideFor rt (orNull (jsGet rt vs T)) f) (arg_name a))
                (argument_id T f (arg_name a))"
      by simp
  qed
qed

theorem argument_fields_registered_and_intercepted_witness:
  "registerValidationSchema nodeBuiltins refBackend inferJSONSchemaType goodSchema argumentOverrides
     freshValidator = (None, snd argumentPass) \<and>
   wellNamed goodSchema \<and>
   (''Query'', Query_type) \<in> set goodSchema \<and> visited (''Query'', Query_type) \<and>
   (''search'', search_field) \<in> set (st_fields Query_type) \<and>
   length (filter (\<lambda>e. fst e = JStr (field_id ''Query'' ''search''))
     (schemas (kAjv (snd argumentPass)))) = 1 \<and>
   map_of (schemas (kAjv (snd argumentPass)))
       (JStr ''https://mercurius.dev/validation/Query/search'') =
     Some (JObj
        [(''$id'', JStr ''https://mercurius.dev/validation/Query/search''),
         (''type'', JStr ''object''),
         (''properties'',
          JObj
           [(''filters'',
             JObj
              [(''required'', JArr [JStr ''text'']),
               (''nullable'', JBool True),
               (''$id'', JStr ''https://mercurius.dev/validation/Query/search/filters''),
               (''type'', JStr ''object''),
               (''$ref'', JStr ''https://mercurius.dev/validation/Filters'')]),
            (''kind'',
             JObj [(''$id'', JStr ''https://mercurius.dev/validation/Query/search/kind'')])])]) \<and>
   map_of (schemas (kAjv (snd argumentPass)))
       (JStr ''https://mercurius.dev/validation/Query/message'') =
     Some (JObj
        [(''$id'', JStr ''https://mercurius.dev/validation/Query/message''),
         (''type'', JStr ''object''),
         (''properties'',
          JObj
           [(''text'',
             JObj
              [(''type'', JArr [JStr ''string'', JStr ''null'']),
               (''$id'', JStr ''https://mercurius.dev/validation/Query/message/text'')])])]) \<and>
   map_of (schemas (kAjv (snd argumentPass)))
       (JStr ''https://mercurius.dev/validation/Query/version'') = None \<and>
   (''Query'', ''search'') \<in> set (intercepted (snd argumentPass)) \<and>
   intercepted (snd argumentPass) = [(''Query'', ''message''), (''Query'', ''search'')]"
proof -
  have h: "registerValidationSchema nodeBuiltins refBackend inferJSONSchemaType goodSchema
     argumentOverrides freshValidator = (None, snd argumentPass)"
    by code_simp
  have w: "wellNamed goodSchema" by code_simp
  have m: "(''Query'', Query_type) \<in> set goodSchema" by (simp add: goodSchema_def)
  have v: "visited (''Query'', Query_type)" by code_simp
  have f: "(''search'', search_field) \<in> set (st_fields Query_type)"
    by (simp add: Query_type_def)
  have f': "(''message'', message_field) \<in> set (st_fields Query_type)"
    by (simp add: Query_type_def)
  have a: "field_args search_field =
     Some [\<lparr>arg_name = ''filters'', arg_type = NamedT Filters_t\<rparr>,
           \<lparr>arg_name = ''kind'', arg_type = NamedT Kind_t\<rparr>] \<and>
     [\<lparr>arg_name = ''filters'', arg_type = NamedT Filters_t\<rparr>,
      \<lparr>arg_name = ''kind'', arg_type = NamedT Kind_t\<rparr>] \<noteq> []"
    by (simp add: search_field_def)
  have a': "field_args message_field = Some [\<lparr>arg_name = ''text'', arg_type = NamedT String_t\<rparr>] \<and>
     [\<lparr>arg_name = ''text'', arg_type = NamedT String_t\<rparr>] \<noteq> []"
    by (simp add: message_field_def)
  have i: "intercepted (snd argumentPass) = [(''Query'', ''message''), (''Query'', ''search'')]"
    by code_simp
  have n: "map_of (schemas (kAjv (snd argumentPass)))
       (JStr ''https://mercurius.dev/validation/Query/version'') = None"
    by code_simp
  have k: "field_id ''Query'' ''search'' = ''https://mercurius.dev/validation/Query/search''"
    "field_id ''Query'' ''message'' = ''https://mercurius.dev/validation/Query/message''"
    by (simp_all add: field_id_def validation_base_def)
  have e: "fieldArgumentsValidationSchema nodeBuiltins inferJSONSchemaType ''Query'' ''search''
       [\<lparr>arg_name = ''filters'', arg_type = NamedT Filters_t\<rparr>,
        \<lparr>arg_name = ''kind'', arg_type = NamedT Kind_t\<rparr>]
       (overrideFor nodeBuiltins (orNull (jsGet nodeBuiltins argumentOverrides ''Query'')) ''search'')
     = JObj
        [(''$id'', JStr ''https://mercurius.dev/validation/Query/search''),
         (''type'', JStr ''object''),
         (''properties'',
          JObj
           [(''filters'',
             JObj
              [(''required'', JArr [JStr ''text'']),
               (''nullable'', JBool True),
               (''$id'', JStr ''https://mercurius.dev/validation/Query/search/filters''),
               (''type'', JStr ''object''),
               (''$ref'', JStr ''https://mercurius.dev/validation/Filters'')]),
            (''kind'',
             JObj [(''$id'', JStr ''https://mercurius.dev/validation/Query/search/kind'')])])]"
    by code_simp
  have e': "fieldArgumentsValidationSchema nodeBuiltins inferJSONSchemaType ''Query'' ''message''
       [\<lparr>arg_name = ''text'', arg_type = NamedT String_t\<rparr>]
       (overrideFor nodeBuiltins (orNull (jsGet nodeBuiltins argumentOverrides ''Query'')) ''message'')
     = JObj
        [(''$id'', JStr ''https://mercurius.dev/validation/Query/message''),
         (''type'', JStr ''object''),
         (''properties'',
          JObj
           [(''text'',
             JObj
              [(''type'', JArr [JStr ''string'', JStr ''null'']),
               (''$id'', JStr ''https://mercurius.dev/validation/Query/message/text'')])])]"
    by code_simp
  note t = argument_fields_registered_and_intercepted [OF h, THEN conjunct2, rule_format,
             OF conjI [OF refl w]]
  note s = t [OF conjI [OF m conjI [OF v conjI [OF f a]]]]
  note s' = t [OF conjI [OF m conjI [OF v conjI [OF f' a']]]]
  from s have s1:
    "length (filter (\<lambda>e. fst e = JStr (field_id ''Query'' ''search''))
          (schemas (kAjv (snd argumentPass)))) = 1"
    by (rule conjunct1)
  from s have s2: "map_of (schemas (kAjv (snd argumentPass))) (JStr (field_id ''Query'' ''search''))
      = Some (fieldArgumentsValidationSchema nodeBuiltins inferJSONSchemaType ''Query'' ''search''
       [\<lparr>arg_name = ''filters'', arg_type = NamedT Filters_t\<rparr>,
        \<lparr>arg_name = ''kind'', arg_type = NamedT Kind_t\<rparr>]
       (overrideFor nodeBuiltins (orNull (jsGet nodeBuiltins argumentOverrides ''Query'')) ''search''))"
    by (rule conjunct2 [THEN conjunct1])
  from s' have s3: "map_of (schemas (kAjv (snd argumentPass))) (JStr (field_id ''Query'' ''message''))
      = Some (fieldArgumentsValidationSchema nodeBuiltins inferJSONSchemaType ''Query'' ''message''
       [\<lparr>arg_name = ''text'', arg_type = NamedT String_t\<rparr>]
       (overrideFor nodeBuiltins (orNull (jsGet nodeBuiltins argumentOverrides ''Query'')) ''message''))"
    by (rule conjunct2 [THEN conjunct1])
  have s4: "(''Query'', ''search'') \<in> set (intercepted (snd argumentPass))"
    by (simp add: i)
  from s2 have s2': "map_of (schemas (kAjv (snd argumentPass)))
       (JStr ''https://mercurius.dev/validation/Query/search'') =
     Some (JObj
        [(''$id'', JStr ''https://mercurius.dev/validation/Query/search''),
         (''type'', JStr ''object''),
         (''properties'',
          JObj
           [(''filters'',
             JObj
              [(''required'', JArr [JStr ''text'']),
               (''nullable'', JBool True),
               (''$id'', JStr ''https://mercurius.dev/validation/Query/search/filters''),
               (''type'', JStr ''object''),
               (''$ref'', JStr ''https://mercurius.dev/validation/Filters'')]),
            (''kind'',
             JObj [(''$id'', JStr ''https://mercurius.dev/validation/Query/search/kind'')])])])"
    by (simp only: e k)
  from s3 have s3': "map_of (schemas (kAjv (snd argumentPass)))
       (JStr ''https://mercurius.dev/validation/Query/message'') =
     Some (JObj
        [(''$id'', JStr ''https://mercurius.dev/validation/Query/message''),
         (''type'', JStr ''object''),
         (''properties'',
          JObj
           [(''text'',
             JObj
              [(''type'', JArr [JStr ''string'', JStr ''null'']),
               (''$id'', JStr ''https://mercurius.dev/validation/Query/message/text'')])])])"
    by (simp only: e' k)
  from h w m v f s1 s2' s3' n s4 i show ?thesis by (intro conjI)
qed


section \<open>The property set of a type-level unit\<close>

lemma addFieldProperty_fieldProperty:
  "addFieldProperty rt infer T k tv e tvs =
     (case fieldProperty rt infer T k tv (fst e) (snd e) of
        None \<Rightarrow> tvs
      | Some s \<Rightarrow> setProperty rt tvs (fst e) s)"
  by (simp add: addFieldProperty_def fieldProperty_def split: sum.splits option.splits)

lemma fold_addFieldProperty_lookup:
  "distinct (map fst fs) \<Longrightarrow> map_of tvs ''properties'' = Some (JObj p) \<Longrightarrow>
   \<exists>q. map_of (fold (addFieldProperty rt infer T k tv) fs tvs) ''properties'' = Some (JObj q) \<and>
       map_of q n =
         (case map_of fs n of
            None \<Rightarrow> map_of p n
          | Some fld \<Rightarrow>
              (case fieldProperty rt infer T k tv n fld of
                 None \<Rightarrow> map_of p n
               | Some s \<Rightarrow> Some s))"
proof (induction fs arbitrary: tvs p)
  case Nil
  then show ?case by simp
next
  case (Cons e fs)
  obtain f fld where e: "e = (f, fld)" by (cases e)
  from Cons.prems e have d: "distinct (map fst fs)" and nf: "map_of fs f = None"
    by (auto simp: map_of_eq_None_iff)
  let ?tvs' = "addFieldProperty rt infer T k tv e tvs"
  show ?case
  proof (cases "fieldProperty rt infer T k tv f fld")
    case None
    then have t: "?tvs' = tvs"
      by (simp add: addFieldProperty_fieldProperty e)
    from Cons.IH [OF d Cons.prems(2)] t None nf e show ?thesis
      by (cases "n = f") (simp_all split: option.splits)
  next
    case (Some s)
    then have t: "?tvs' = setProperty rt tvs f s"
      by (simp add: addFieldProperty_fieldProperty e)
    have p': "map_of ?tvs' ''properties'' = Some (JObj (AList.update f s p))"
      unfolding t using setProperty_properties [OF Cons.prems(2), of rt f s] by simp
    from Cons.IH [OF d p'] obtain q where q:
      "map_of (fold (addFieldProperty rt infer T k tv) fs ?tvs') ''properties'' = Some (JObj q)"
      "map_of q n =
         (case map_of fs n of
            None \<Rightarrow> map_of (AList.update f s p) n
          | Some fld \<Rightarrow>
              (case fieldProperty rt infer T k tv n fld of
                 None \<Rightarrow> map_of (AList.update f s p) n
               | Some s \<Rightarrow> Some s))"
      by auto
    have "map_of q n =
         (case map_of (e # fs) n of
            None \<Rightarrow> map_of p n
          | Some fld \<Rightarrow>
              (case fieldProperty rt infer T k tv n fld of
                 None \<Rightarrow> map_of p n
               | Some s \<Rightarrow> Some s))"
      using q(2) nf Some e
      by (cases "n = f") (simp_all add: update_conv' split: option.splits)
    with q(1) show ?thesis by simp
  qed
qed

lemma typeLevelUnit_property:
  assumes "distinct (map fst (st_fields st))"
  shows "getProp (getProp (typeLevelUnit rt infer vs (T, st)) ''properties'') n =
           (case map_of (st_fields st) n of
              None \<Rightarrow> JUndefined
            | Some fld \<Rightarrow>
                (case fieldProperty rt infer T (st_kind st) (orNull (jsGet rt vs T)) n fld of
                   None \<Rightarrow> JUndefined
                 | Some s \<Rightarrow> s))"
proof -
  define start where "start = typeSchemaStart rt T (st_kind st) (orNull (jsGet rt vs T))"
  define res where
    "res = fold (addFieldProperty rt infer T (st_kind st) (orNull (jsGet rt vs T)))
             (st_fields st) start"
  have u: "typeLevelUnit rt infer vs (T, st) = JObj res"
    by (simp add: typeLevelUnit_def res_def start_def)
  have s0: "map_of start ''properties'' = Some (JObj [])"
    by (simp add: start_def typeSchemaStart_built)
  from fold_addFieldProperty_lookup [OF assms s0, of rt infer T "st_kind st"
         "orNull (jsGet rt vs T)" n]
  obtain q where q: "map_of res ''properties'' = Some (JObj q)"
    "map_of q n =
       (case map_of (st_fields st) n of
          None \<Rightarrow> map_of [] n
        | Some fld \<Rightarrow>
            (case fieldProperty rt infer T (st_kind st) (orNull (jsGet rt vs T)) n fld of
               None \<Rightarrow> map_of [] n
             | Some s \<Rightarrow> Some s))"
    unfolding res_def by auto
  from q(1) have "getProp (JObj res) ''properties'' = JObj q"
    by (simp add: getProp_JObj)
  then have "getProp (getProp (JObj res) ''properties'') n =
               (case map_of q n of None \<Rightarrow> JUndefined | Some x \<Rightarrow> x)"
    by (simp add: getProp_JObj)
  with q(2) show ?thesis
    unfolding u by (simp split: option.splits)
qed

lemma registered_type_key:
  assumes ok: "registerValidationSchema rt B infer schema vs this = (None, this')"
    and sf: "slashFree N"
  shows "(JStr (type_id N) \<in> fst ` set (schemas (kAjv this'))) =
           (\<exists>st. (N, st) \<in> set schema \<and> \<not> startsWith N ''__'' \<and> st_kind st = InputObjectKind)"
proof -
  have "map fst (schemas (kAjv this')) = map (unitKey rt) (walkUnits rt infer vs schema)"
    by (simp add: register_ok(1) [OF ok] comp_def)
  then have "map fst (schemas (kAjv this')) =
               map (\<lambda>n. JStr (referenceId n)) (walkUnitNames schema)"
    by (simp only: walkUnits_keys)
  then have "set (map fst (schemas (kAjv this'))) =
               set (map (\<lambda>n. JStr (referenceId n)) (walkUnitNames schema))"
    by (rule arg_cong)
  then have k: "fst ` set (schemas (kAjv this')) =
                  (\<lambda>n. JStr (referenceId n)) ` set (walkUnitNames schema)"
    by simp
  have "(JStr (type_id N) \<in> (\<lambda>n. JStr (referenceId n)) ` set (walkUnitNames schema)) =
          (TypeUnit N \<in> set (walkUnitNames schema))"
  proof
    assume "JStr (type_id N) \<in> (\<lambda>n. JStr (referenceId n)) ` set (walkUnitNames schema)"
    then obtain n where n: "n \<in> set (walkUnitNames schema)" "type_id N = referenceId n"
      by auto
    from n(2) sf have "n = TypeUnit N"
    proof (cases n)
      case (TypeUnit t)
      with n(2) show ?thesis by (auto dest: type_id_inject)
    next
      case (FieldUnit t f)
      with n(2) type_id_field_id [of N t f] sf show ?thesis by simp
    next
      case (ArgumentUnit t f a)
      with n(2) type_id_argument_id [of N t f a] sf show ?thesis by simp
    qed
    with n(1) show "TypeUnit N \<in> set (walkUnitNames schema)" by simp
  next
    assume "TypeUnit N \<in> set (walkUnitNames schema)"
    then have "JStr (referenceId (TypeUnit N)) \<in>
                 (\<lambda>n. JStr (referenceId n)) ` set (walkUnitNames schema)"
      by (rule imageI)
    then show "JStr (type_id N) \<in> (\<lambda>n. JStr (referenceId n)) ` set (walkUnitNames schema)"
      by simp
  qed
  moreover have "(TypeUnit N \<in> set (walkUnitNames schema)) =
          (\<exists>st. (N, st) \<in> set schema \<and> \<not> startsWith N ''__'' \<and> st_kind st = InputObjectKind)"
    by (force simp: walkUnitNames_def typeUnitNames_def visited_def getFields_def
          isInputObjectType_def split: if_splits)
  ultimately show ?thesis using k by simp
qed

text \<open>
  C10. When a pass completes on a graph with slash-free names that occur once, every
  input-object type whose name does not start with \<open>__\<close> has exactly one unit
  registered under its type-level reference id. For any overrides, with or without
  \<open>__typeValidation\<close>, that unit has the \<open>$id\<close>
  \<open>https://mercurius.dev/validation/<TypeName>\<close>, type \<open>object\<close> and nullable
  \<open>true\<close>, and under \<open>properties\<close> an object that holds, for each field \<open>n\<close> of
  the type, the fragment \<open>kValidationSchema\<close> synthesizes from the field's typed
  position, the field's override (if any) and the field-scoped reference id, provided
  the field has no arguments and the \<open>type\<close> of that fragment is a string or an
  array, and no property otherwise; it holds no property under any other name. The
  \<open>$ref\<close> emitted at a position whose leaf is that type is a registered key; in
  general the \<open>$ref\<close> emitted for an input-object leaf with a slash-free name is a
  registered key exactly when the graph has an input-object type of that name that does
  not start with \<open>__\<close>.
\<close>

theorem type_level_unit_registered:
  assumes ok: "registerValidationSchema rt B infer schema vs this = (None, this')"
    and wn: "wellNamed schema"
    and ty: "(T, st) \<in> set schema" "\<not> startsWith T ''__''" "st_kind st = InputObjectKind"
  shows "length (filter (\<lambda>e. fst e = JStr (type_id T)) (schemas (kAjv this'))) = 1 \<and>
         map_of (schemas (kAjv this')) (JStr (type_id T)) = Some (typeLevelUnit rt infer vs (T, st)) \<and>
         getProp (typeLevelUnit rt infer vs (T, st)) ''$id''
           = JStr (''https://mercurius.dev/validation/'' @ T) \<and>
         getProp (typeLevelUnit rt infer vs (T, st)) ''type'' = JStr ''object'' \<and>
         getProp (typeLevelUnit rt infer vs (T, st)) ''nullable'' = JBool True \<and>
         (\<exists>ps. getProp (typeLevelUnit rt infer vs (T, st)) ''properties'' = JObj ps) \<and>
         (\<forall>n fld fty nt nn.
            map_of (st_fields st) n = Some fld \<and> getTypeInfo (field_type fld) = (fty, nt, nn) \<longrightarrow>
            getProp (getProp (typeLevelUnit rt infer vs (T, st)) ''properties'') n =
              (if hasArguments fld then JUndefined
               else if isString (jsGet rt (kValidationSchema rt infer fty nt nn
                                    (overrideFor rt (orNull (jsGet rt vs T)) n) (field_id T n)) ''type'') \<or>
                       isArray (jsGet rt (kValidationSchema rt infer fty nt nn
                                    (overrideFor rt (orNull (jsGet rt vs T)) n) (field_id T n)) ''type'')
               then kValidationSchema rt infer fty nt nn
                      (overrideFor rt (orNull (jsGet rt vs T)) n) (field_id T n)
               else JUndefined)) \<and>
         (\<forall>n. map_of (st_fields st) n = None \<longrightarrow>
            getProp (getProp (typeLevelUnit rt infer vs (T, st)) ''properties'') n = JUndefined) \<and>
         (\<forall>ty nt nn tv ident. isInputObjectType (nt_kind nt) \<and> nt_name nt = T \<longrightarrow>
            (if isListType ty
             then getProp (getProp (kValidationSchema rt infer ty nt nn tv ident) ''items'') ''$ref''
             else getProp (kValidationSchema rt infer ty nt nn tv ident) ''$ref'')
            \<in> fst ` set (schemas (kAjv this'))) \<and>
         (\<forall>ty nt nn tv ident. isInputObjectType (nt_kind nt) \<and> slashFree (nt_name nt) \<longrightarrow>
            ((if isListType ty
              then getProp (getProp (kValidationSchema rt infer ty nt nn tv ident) ''items'') ''$ref''
              else getProp (kValidationSchema rt infer ty nt nn tv ident) ''$ref'')
             \<in> fst ` set (schemas (kAjv this'))) =
            (\<exists>st'. (nt_name nt, st') \<in> set schema \<and> \<not> startsWith (nt_name nt) ''__'' \<and>
                    st_kind st' = InputObjectKind))"
proof -
  from ty have v: "visited (T, st)" and inp: "isInputObjectType (st_kind st)"
    by (simp_all add: visited_def getFields_def isInputObjectType_def)
  from wn ty(1) have d: "distinct (map fst (st_fields st))"
    by (force simp: wellNamed_def)
  let ?u = "typeLevelUnit rt infer vs (T, st)"
  let ?tv = "orNull (jsGet rt vs T)"
  have k: "unitKey rt ?u = JStr (type_id T)" by (simp add: unitKey_typeLevelUnit)
  from registered_unit [OF ok wn type_unit_in_walk [OF ty(1) v inp, of rt infer vs]] k
  have r: "length (filter (\<lambda>e. fst e = JStr (type_id T)) (schemas (kAjv this'))) = 1"
    "map_of (schemas (kAjv this')) (JStr (type_id T)) = Some ?u"
    by simp_all
  have b: "getProp ?u ''$id'' = JStr (''https://mercurius.dev/validation/'' @ T)"
    "getProp ?u ''type'' = JStr ''object''" "getProp ?u ''nullable'' = JBool True"
    by (simp_all add: typeLevelUnit_built type_id_def validation_base_def)
  have s0: "map_of (typeSchemaStart rt T (st_kind st) ?tv) ''properties'' = Some (JObj [])"
    by (simp add: typeSchemaStart_built)
  from fold_addFieldProperty_lookup [OF d s0, of rt infer T "st_kind st" ?tv "[]"]
  have po: "\<exists>ps. getProp ?u ''properties'' = JObj ps"
    by (auto simp: typeLevelUnit_def getProp_JObj)
  have fp: "fieldProperty rt infer T InputObjectKind ?tv n fld =
              (if hasArguments fld then None
               else if isString (jsGet rt (kValidationSchema rt infer fty nt nn
                                    (overrideFor rt ?tv n) (field_id T n)) ''type'') \<or>
                       isArray (jsGet rt (kValidationSchema rt infer fty nt nn
                                    (overrideFor rt ?tv n) (field_id T n)) ''type'')
               then Some (kValidationSchema rt infer fty nt nn (overrideFor rt ?tv n) (field_id T n))
               else None)"
    if "getTypeInfo (field_type fld) = (fty, nt, nn)" for n fld fty nt nn
    using that
    by (auto simp: fieldProperty_def kBuildInputTypeFieldSchema_def isInputObjectType_def Let_def)
  have p: "\<forall>n fld fty nt nn.
            map_of (st_fields st) n = Some fld \<and> getTypeInfo (field_type fld) = (fty, nt, nn) \<longrightarrow>
            getProp (getProp ?u ''properties'') n =
              (if hasArguments fld then JUndefined
               else if isString (jsGet rt (kValidationSchema rt infer fty nt nn
                                    (overrideFor rt ?tv n) (field_id T n)) ''type'') \<or>
                       isArray (jsGet rt (kValidationSchema rt infer fty nt nn
                                    (overrideFor rt ?tv n) (field_id T n)) ''type'')
               then kValidationSchema rt infer fty nt nn (overrideFor rt ?tv n) (field_id T n)
               else JUndefined)"
  proof (intro allI impI)
    fix n fty nn and fld :: field and nt :: named_type
    assume h: "map_of (st_fields st) n = Some fld \<and> getTypeInfo (field_type fld) = (fty, nt, nn)"
    then have m: "map_of (st_fields st) n = Some fld"
      and g: "getTypeInfo (field_type fld) = (fty, nt, nn)" by simp_all
    from typeLevelUnit_property [OF d, of rt infer vs T n, unfolded ty(3)] m
    have "getProp (getProp ?u ''properties'') n =
            (case fieldProperty rt infer T InputObjectKind ?tv n fld of
               None \<Rightarrow> JUndefined | Some s \<Rightarrow> s)"
      by simp
    then show "getProp (getProp ?u ''properties'') n =
              (if hasArguments fld then JUndefined
               else if isString (jsGet rt (kValidationSchema rt infer fty nt nn
                                    (overrideFor rt ?tv n) (field_id T n)) ''type'') \<or>
                       isArray (jsGet rt (kValidationSchema rt infer fty nt nn
                                    (overrideFor rt ?tv n) (field_id T n)) ''type'')
               then kValidationSchema rt infer fty nt nn (overrideFor rt ?tv n) (field_id T n)
               else JUndefined)"
      unfolding fp [OF g] by simp
  qed
  have p0: "\<forall>n. map_of (st_fields st) n = None \<longrightarrow> getProp (getProp ?u ''properties'') n = JUndefined"
    using typeLevelUnit_property [OF d, of rt infer vs T] by simp
  from r(2) have reg: "JStr (type_id T) \<in> fst ` set (schemas (kAjv this'))"
    by (metis map_of_eq_None_iff option.distinct(1))
  have c: "\<forall>ty nt nn tv ident. isInputObjectType (nt_kind nt) \<and> nt_name nt = T \<longrightarrow>
            (if isListType ty
             then getProp (getProp (kValidationSchema rt infer ty nt nn tv ident) ''items'') ''$ref''
             else getProp (kValidationSchema rt infer ty nt nn tv ident) ''$ref'')
            \<in> fst ` set (schemas (kAjv this'))"
  proof (intro allI impI)
    fix ty nn tv ident and nt :: named_type
    assume h: "isInputObjectType (nt_kind nt) \<and> nt_name nt = T"
    then have i: "isInputObjectType (nt_kind nt)" and n: "nt_name nt = T" by simp_all
    from kValidationSchema_composite [OF i, of rt infer ty nn tv ident] n
    have "(if isListType ty
             then getProp (getProp (kValidationSchema rt infer ty nt nn tv ident) ''items'') ''$ref''
             else getProp (kValidationSchema rt infer ty nt nn tv ident) ''$ref'') = JStr (type_id T)"
      by simp
    with reg show "(if isListType ty
             then getProp (getProp (kValidationSchema rt infer ty nt nn tv ident) ''items'') ''$ref''
             else getProp (kValidationSchema rt infer ty nt nn tv ident) ''$ref'')
            \<in> fst ` set (schemas (kAjv this'))"
      by simp
  qed
  have c': "\<forall>ty nt nn tv ident. isInputObjectType (nt_kind nt) \<and> slashFree (nt_name nt) \<longrightarrow>
            ((if isListType ty
              then getProp (getProp (kValidationSchema rt infer ty nt nn tv ident) ''items'') ''$ref''
              else getProp (kValidationSchema rt infer ty nt nn tv ident) ''$ref'')
             \<in> fst ` set (schemas (kAjv this'))) =
            (\<exists>st'. (nt_name nt, st') \<in> set schema \<and> \<not> startsWith (nt_name nt) ''__'' \<and>
                    st_kind st' = InputObjectKind)"
  proof (intro allI impI)
    fix ty nn tv ident and nt :: named_type
    assume h: "isInputObjectType (nt_kind nt) \<and> slashFree (nt_name nt)"
    then have i: "isInputObjectType (nt_kind nt)" and sf: "slashFree (nt_name nt)" by simp_all
    from kValidationSchema_composite [OF i, of rt infer ty nn tv ident]
    have "(if isListType ty
             then getProp (getProp (kValidationSchema rt infer ty nt nn tv ident) ''items'') ''$ref''
             else getProp (kValidationSchema rt infer ty nt nn tv ident) ''$ref'')
            = JStr (type_id (nt_name nt))"
      by simp
    with registered_type_key [OF ok sf]
    show "((if isListType ty
              then getProp (getProp (kValidationSchema rt infer ty nt nn tv ident) ''items'') ''$ref''
              else getProp (kValidationSchema rt infer ty nt nn tv ident) ''$ref'')
             \<in> fst ` set (schemas (kAjv this'))) =
            (\<exists>st'. (nt_name nt, st') \<in> set schema \<and> \<not> startsWith (nt_name nt) ''__'' \<and>
                    st_kind st' = InputObjectKind)"
      by simp
  qed
  from r b po p p0 c c' show ?thesis by (intro conjI)
qed

theorem type_level_unit_registered_witness:
  "registerValidationSchema nodeBuiltins refBackend inferJSONSchemaType goodSchema typedOverrides
     freshValidator = (None, snd typedPass) \<and>
   wellNamed goodSchema \<and>
   (''Filters'', Filters_type) \<in> set goodSchema \<and> \<not> startsWith ''Filters'' ''__'' \<and>
   st_kind Filters_type = InputObjectKind \<and>
   length (filter (\<lambda>e. fst e = JStr (type_id ''Filters'')) (schemas (kAjv (snd typedPass)))) = 1 \<and>
   map_of (schemas (kAjv (snd typedPass))) (JStr ''https://mercurius.dev/validation/Filters'') =
     Some (JObj
       [(''type'', JStr ''object''), (''minProperties'', JNum 1),
        (''$id'', JStr ''https://mercurius.dev/validation/Filters''),
        (''nullable'', JBool True),
        (''properties'',
         JObj
          [(''text'',
            JObj
             [(''minLength'', JNum 3),
              (''type'', JArr [JStr ''string'', JStr ''null'']),
              (''$id'', JStr ''https://mercurius.dev/validation/Filters/text'')]),
           (''nested'',
            JObj
             [(''$id'', JStr ''https://mercurius.dev/validation/Filters/nested''),
              (''type'', JStr ''object''),
              (''$ref'', JStr ''https://mercurius.dev/validation/Nested''),
              (''nullable'', JBool False)]),
           (''tags'',
            JObj
             [(''type'', JStr ''array''),
              (''$id'', JStr ''https://mercurius.dev/validation/Filters/tags''),
              (''items'', JObj [(''type'', JArr [JStr ''string'', JStr ''null''])]),
              (''nullable'', JBool True)])])]) \<and>
   getProp (typeLevelUnit nodeBuiltins inferJSONSchemaType typedOverrides (''Filters'', Filters_type))
     ''$id'' = JStr ''https://mercurius.dev/validation/Filters'' \<and>
   getProp (typeLevelUnit nodeBuiltins inferJSONSchemaType typedOverrides (''Filters'', Filters_type))
     ''type'' = JStr ''object'' \<and>
   getProp (typeLevelUnit nodeBuiltins inferJSONSchemaType typedOverrides (''Filters'', Filters_type))
     ''nullable'' = JBool True \<and>
   getProp (getProp (typeLevelUnit nodeBuiltins inferJSONSchemaType typedOverrides
     (''Filters'', Filters_type)) ''properties'') ''text'' =
     JObj [(''minLength'', JNum 3),
           (''type'', JArr [JStr ''string'', JStr ''null'']),
           (''$id'', JStr ''https://mercurius.dev/validation/Filters/text'')] \<and>
   getProp (getProp (typeLevelUnit nodeBuiltins inferJSONSchemaType typedOverrides
     (''Filters'', Filters_type)) ''properties'') ''kind'' = JUndefined \<and>
   JStr ''https://mercurius.dev/validation/Nested'' \<in> fst ` set (schemas (kAjv (snd typedPass)))"
proof -
  have h: "registerValidationSchema nodeBuiltins refBackend inferJSONSchemaType goodSchema
     typedOverrides freshValidator = (None, snd typedPass)"
    by code_simp
  have w: "wellNamed goodSchema" by code_simp
  have m: "(''Filters'', Filters_type) \<in> set goodSchema" by (simp add: goodSchema_def)
  have n: "\<not> startsWith ''Filters'' ''__''" by (simp add: startsWith_def)
  have k: "st_kind Filters_type = InputObjectKind" by (simp add: Filters_type_def)
  have i: "type_id ''Filters'' = ''https://mercurius.dev/validation/Filters''"
    by (simp add: type_id_def validation_base_def)
  have e: "typeLevelUnit nodeBuiltins inferJSONSchemaType typedOverrides (''Filters'', Filters_type) =
     JObj
       [(''type'', JStr ''object''), (''minProperties'', JNum 1),
        (''$id'', JStr ''https://mercurius.dev/validation/Filters''),
        (''nullable'', JBool True),
        (''properties'',
         JObj
          [(''text'',
            JObj
             [(''minLength'', JNum 3),
              (''type'', JArr [JStr ''string'', JStr ''null'']),
              (''$id'', JStr ''https://mercurius.dev/validation/Filters/text'')]),
           (''nested'',
            JObj
             [(''$id'', JStr ''https://mercurius.dev/validation/Filters/nested''),
              (''type'', JStr ''object''),
              (''$ref'', JStr ''https://mercurius.dev/validation/Nested''),
              (''nullable'', JBool False)]),
           (''tags'',
            JObj
             [(''type'', JStr ''array''),
              (''$id'', JStr ''https://mercurius.dev/validation/Filters/tags''),
              (''items'', JObj [(''type'', JArr [JStr ''string'', JStr ''null''])]),
              (''nullable'', JBool True)])])]"
    by code_simp
  have ft: "map_of (st_fields Filters_type) ''text'' =
              Some \<lparr>field_type = NamedT String_t, field_args = None\<rparr> \<and>
            getTypeInfo (field_type \<lparr>field_type = NamedT String_t, field_args = None\<rparr>)
              = (NamedT String_t, String_t, False)"
    by (simp add: Filters_type_def getTypeInfo_def)
  have fk: "map_of (st_fields Filters_type) ''kind'' =
              Some \<lparr>field_type = NamedT Kind_t, field_args = None\<rparr> \<and>
            getTypeInfo (field_type \<lparr>field_type = NamedT Kind_t, field_args = None\<rparr>)
              = (NamedT Kind_t, Kind_t, False)"
    by (simp add: Filters_type_def getTypeInfo_def)
  let ?st = "kValidationSchema nodeBuiltins inferJSONSchemaType (NamedT String_t) String_t False
                 (overrideFor nodeBuiltins (orNull (jsGet nodeBuiltins typedOverrides ''Filters'')) ''text'')
                 (field_id ''Filters'' ''text'')"
  let ?sk = "kValidationSchema nodeBuiltins inferJSONSchemaType (NamedT Kind_t) Kind_t False
                 (overrideFor nodeBuiltins (orNull (jsGet nodeBuiltins typedOverrides ''Filters'')) ''kind'')
                 (field_id ''Filters'' ''kind'')"
  have vt: "(if hasArguments \<lparr>field_type = NamedT String_t, field_args = None\<rparr> then JUndefined
             else if isString (jsGet nodeBuiltins ?st ''type'') \<or> isArray (jsGet nodeBuiltins ?st ''type'')
             then ?st else JUndefined) =
     JObj [(''minLength'', JNum 3),
           (''type'', JArr [JStr ''string'', JStr ''null'']),
           (''$id'', JStr ''https://mercurius.dev/validation/Filters/text'')]"
    by code_simp
  have vk: "(if hasArguments \<lparr>field_type = NamedT Kind_t, field_args = None\<rparr> then JUndefined
             else if isString (jsGet nodeBuiltins ?sk ''type'') \<or> isArray (jsGet nodeBuiltins ?sk ''type'')
             then ?sk else JUndefined) = JUndefined"
    by code_simp
  have nk: "isInputObjectType (nt_kind Nested_t) \<and> nt_name Nested_t = ''Nested''"
    by (simp add: Nested_t_def isInputObjectType_def)
  have nm: "(''Nested'', Nested_type) \<in> set goodSchema" by (simp add: goodSchema_def)
  have nn: "\<not> startsWith ''Nested'' ''__''" by (simp add: startsWith_def)
  have nki: "st_kind Nested_type = InputObjectKind" by (simp add: Nested_type_def)
  have nv: "getProp (kValidationSchema nodeBuiltins inferJSONSchemaType (NamedT Nested_t) Nested_t True
              None (field_id ''Filters'' ''nested'')) ''$ref''
            = JStr ''https://mercurius.dev/validation/Nested''"
    by code_simp
  note t = type_level_unit_registered [OF h w m n k]
  from t have t1:
    "length (filter (\<lambda>e. fst e = JStr (type_id ''Filters'')) (schemas (kAjv (snd typedPass)))) = 1"
    by (rule conjunct1)
  from t have t2: "map_of (schemas (kAjv (snd typedPass))) (JStr (type_id ''Filters'')) =
       Some (typeLevelUnit nodeBuiltins inferJSONSchemaType typedOverrides (''Filters'', Filters_type))"
    by (rule conjunct2 [THEN conjunct1])
  from t have t3: "getProp (typeLevelUnit nodeBuiltins inferJSONSchemaType typedOverrides
       (''Filters'', Filters_type)) ''$id'' = JStr (''https://mercurius.dev/validation/'' @ ''Filters'')"
    by (rule conjunct2 [THEN conjunct2, THEN conjunct1])
  from t have t4: "getProp (typeLevelUnit nodeBuiltins inferJSONSchemaType typedOverrides
       (''Filters'', Filters_type)) ''type'' = JStr ''object''"
    by (rule conjunct2 [THEN conjunct2, THEN conjunct2, THEN conjunct1])
  from t have t5: "getProp (typeLevelUnit nodeBuiltins inferJSONSchemaType typedOverrides
       (''Filters'', Filters_type)) ''nullable'' = JBool True"
    by (rule conjunct2 [THEN conjunct2, THEN conjunct2, THEN conjunct2, THEN conjunct1])
  note t7 = t [THEN conjunct2, THEN conjunct2, THEN conjunct2, THEN conjunct2, THEN conjunct2,
               THEN conjunct2, THEN conjunct1, rule_format]
  from t7 [OF ft] have t7t: "getProp (getProp (typeLevelUnit nodeBuiltins inferJSONSchemaType
       typedOverrides (''Filters'', Filters_type)) ''properties'') ''text'' =
     JObj [(''minLength'', JNum 3),
           (''type'', JArr [JStr ''string'', JStr ''null'']),
           (''$id'', JStr ''https://mercurius.dev/validation/Filters/text'')]"
    using vt by (rule trans)
  from t7 [OF fk] have t7k: "getProp (getProp (typeLevelUnit nodeBuiltins inferJSONSchemaType
       typedOverrides (''Filters'', Filters_type)) ''properties'') ''kind'' = JUndefined"
    using vk by (rule trans)
  note c9 = type_level_unit_registered [OF h w nm nn nki, THEN conjunct2, THEN conjunct2,
         THEN conjunct2, THEN conjunct2, THEN conjunct2, THEN conjunct2, THEN conjunct2,
         THEN conjunct2, THEN conjunct1, rule_format, OF nk]
  have "(if isListType (NamedT Nested_t)
         then getProp (getProp (kValidationSchema nodeBuiltins inferJSONSchemaType (NamedT Nested_t)
                Nested_t True None (field_id ''Filters'' ''nested'')) ''items'') ''$ref''
         else getProp (kValidationSchema nodeBuiltins inferJSONSchemaType (NamedT Nested_t)
                Nested_t True None (field_id ''Filters'' ''nested'')) ''$ref'')
        \<in> fst ` set (schemas (kAjv (snd typedPass)))"
    by (rule c9)
  then have t9: "JStr ''https://mercurius.dev/validation/Nested''
                   \<in> fst ` set (schemas (kAjv (snd typedPass)))"
    using nv by simp
  from t2 have t2': "map_of (schemas (kAjv (snd typedPass)))
       (JStr ''https://mercurius.dev/validation/Filters'') =
     Some (JObj
       [(''type'', JStr ''object''), (''minProperties'', JNum 1),
        (''$id'', JStr ''https://mercurius.dev/validation/Filters''),
        (''nullable'', JBool True),
        (''properties'',
         JObj
          [(''text'',
            JObj
             [(''minLength'', JNum 3),
              (''type'', JArr [JStr ''string'', JStr ''null'']),
              (''$id'', JStr ''https://mercurius.dev/validation/Filters/text'')]),
           (''nested'',
            JObj
             [(''$id'', JStr ''https://mercurius.dev/validation/Filters/nested''),
              (''type'', JStr ''object''),
              (''$ref'', JStr ''https://mercurius.dev/validation/Nested''),
              (''nullable'', JBool False)]),
           (''tags'',
            JObj
             [(''type'', JStr ''array''),
              (''$id'', JStr ''https://mercurius.dev/validation/Filters/tags''),
              (''items'', JObj [(''type'', JArr [JStr ''string'', JStr ''null''])]),
              (''nullable'', JBool True)])])])"
    by (simp only: e i)
  from t3 have t3': "getProp (typeLevelUnit nodeBuiltins inferJSONSchemaType typedOverrides
       (''Filters'', Filters_type)) ''$id'' = JStr ''https://mercurius.dev/validation/Filters''"
    by simp
  from h w m n k t1 t2' t3' t4 t5 t7t t7k t9 show ?thesis by (intro conjI)
qed


text \<open>
  C5. The code departs from the claim at a field that bears the name of a member of
  \<open>Object.prototype\<close>. The sample overrides hold no entry for the enum field
  \<open>constructor\<close> of \<open>Filters\<close>, but the read \<open>typeValidation[fieldName]\<close> finds
  the inherited function \<open>Object\<close>, which is truthy and adds no key to the fragment;
  the builder takes it for an override and throws, and the pass fails with the
  field-type-undefined error, leaving the fresh, empty backend instance installed. The
  same enum field under a name that is no such member (\<open>kind\<close> in the sample graph)
  is left out of the property set without an error. In the other direction, the
  supplied override \<^verbatim>\<open>{ type: null }\<close> of such a field yields a fragment whose
  \<open>type\<close> is \<open>null\<close>: no error is thrown and the field is left out.
\<close>

theorem inherited_member_read_as_override:
  "getProp (getProp sampleOverrides ''Filters'') ''constructor'' = JUndefined \<and>
   overrideFor nodeBuiltins (orNull (jsGet nodeBuiltins sampleOverrides ''Filters'')) ''constructor''
     = Some (JBuiltin ''Object'') \<and>
   kValidationSchema nodeBuiltins inferJSONSchemaType (NamedT Kind_t) Kind_t False
     (Some (JBuiltin ''Object'')) (field_id ''Filters'' ''constructor'')
     = JObj [(''$id'', JStr ''https://mercurius.dev/validation/Filters/constructor'')] \<and>
   kBuildInputTypeFieldSchema nodeBuiltins inferJSONSchemaType ''Filters'' ''constructor''
     \<lparr>field_type = NamedT Kind_t, field_args = None\<rparr> (Some (JBuiltin ''Object''))
     = Inl (MER_VALIDATION_ERR_FIELD_TYPE_UNDEFINED
              (JStr ''https://mercurius.dev/validation/Filters/constructor'')) \<and>
   shadowPass =
     (Some (MER_VALIDATION_ERR_FIELD_TYPE_UNDEFINED
              (JStr ''https://mercurius.dev/validation/Filters/constructor'')),
      \<lparr>kAjv = \<lparr>schemas = [], compiled = [], calls = []\<rparr>, intercepted = []\<rparr>) \<and>
   overrideFor nodeBuiltins (orNull (jsGet nodeBuiltins sampleOverrides ''Filters'')) ''kind''
     = None \<and>
   kBuildInputTypeFieldSchema nodeBuiltins inferJSONSchemaType ''Filters'' ''kind''
     \<lparr>field_type = NamedT Kind_t, field_args = None\<rparr> None = Inr None \<and>
   fst goodPass = None \<and>
   kValidationSchema nodeBuiltins inferJSONSchemaType (NamedT Kind_t) Kind_t False
     (Some (JObj [(''type'', JNull)])) (field_id ''Filters'' ''kind'')
     = JObj [(''type'', JNull), (''$id'', JStr ''https://mercurius.dev/validation/Filters/kind'')] \<and>
   kBuildInputTypeFieldSchema nodeBuiltins inferJSONSchemaType ''Filters'' ''kind''
     \<lparr>field_type = NamedT Kind_t, field_args = None\<rparr> (Some (JObj [(''type'', JNull)]))
     = Inr None"
  by code_simp


end
